theory Spec2Isabelle
  imports Complex_Main "HOL-Library.Sublist"
begin

section \<open>The search engine of zanreal-labs/search\<close>

text \<open>
  The repository holds two revisions of the engine: \<^verbatim>\<open>src/index.ts\<close> (full-matrix edit
  distance, no caches, full scan) and its optimised successor (two-row edit distance,
  three process-wide caches, sampled field statistics, early termination).  Both are
  embedded.  The definitions of the optimised revision carry the source's names; where the
  first revision has a function of the same name with a different body, its definition has
  the suffix \<open>_v1\<close>.

  Conventions of the embedding:
  \<^item> a JavaScript string is a \<open>string\<close>, one \<open>char\<close> per UTF-16 code unit, restricted to the
    code units below 256;
  \<^item> a JavaScript number that is a length, an index or a counter is a \<open>nat\<close> or an \<open>int\<close>;
    a score, a weight or a threshold is a \<open>rat\<close> (exact arithmetic instead of IEEE
    doubles, no NaN and no infinities);
  \<^item> \<open>null\<close> results are \<open>None\<close>; a thrown \<open>TypeError\<close> is the left injection of a sum;
  \<^item> the module-level caches are an explicit state that every operation takes and
    returns.
\<close>

subsection \<open>Built-in string operations\<close>

definition isWhitespace :: "char \<Rightarrow> bool" where
  \<comment> \<open>\<^verbatim>\<open>/\s/.test(char)\<close> on the code units below 256: TAB, LF, VT, FF, CR, SP, NBSP.\<close>
  "isWhitespace c = ((of_char c :: nat) \<in> {9, 10, 11, 12, 13, 32, 160})"

definition lowerChar :: "char \<Rightarrow> char" where
  \<comment> \<open>Lower-casing of one code unit below 256: A-Z and the Latin-1 capitals.\<close>
  "lowerChar c =
     (let n = (of_char c :: nat)
      in if (65 \<le> n \<and> n \<le> 90) \<or> (192 \<le> n \<and> n \<le> 222 \<and> n \<noteq> 215)
         then char_of (n + 32) else c)"

definition toLowerCase :: "string \<Rightarrow> string" where
  "toLowerCase s = map lowerChar s"

definition trim :: "string \<Rightarrow> string" where
  "trim s = rev (dropWhile isWhitespace (rev (dropWhile isWhitespace s)))"

definition startsWith :: "string \<Rightarrow> string \<Rightarrow> bool" where
  "startsWith s q = prefix q s"

fun indexOf :: "string \<Rightarrow> string \<Rightarrow> int" where
  \<comment> \<open>Index of the first occurrence of \<open>q\<close> in \<open>s\<close>, \<open>-1\<close> when there is none.\<close>
  "indexOf [] q = (if q = [] then 0 else -1)"
| "indexOf (c # s) q =
     (if prefix q (c # s) then 0
      else (let r = indexOf s q in if r = -1 then -1 else r + 1))"

definition includes_str :: "string \<Rightarrow> string \<Rightarrow> bool" where
  "includes_str s q = (indexOf s q \<noteq> -1)"

fun split_on :: "char \<Rightarrow> string \<Rightarrow> string list" where
  \<comment> \<open>\<^verbatim>\<open>s.split(c)\<close> for a one-character separator: never empty, \<open>[""]\<close> for \<open>""\<close>.\<close>
  "split_on d [] = [[]]"
| "split_on d (c # s) =
     (if c = d then [] # split_on d s
      else (case split_on d s of w # ws \<Rightarrow> (c # w) # ws | [] \<Rightarrow> [[c]]))"

function splitWhitespace :: "string \<Rightarrow> string list" where
  \<comment> \<open>\<^verbatim>\<open>s.split(/\s+/)\<close>: the pieces between maximal runs of whitespace; a leading or
      trailing run leaves an empty piece at that end.\<close>
  "splitWhitespace s =
     (let w = takeWhile (\<lambda>c. \<not> isWhitespace c) s;
          r = dropWhile (\<lambda>c. \<not> isWhitespace c) s
      in if r = [] then [w] else w # splitWhitespace (dropWhile isWhitespace r))"
  by pat_completeness auto
termination
proof (relation "measure length")
  show "wf (measure length)" by simp
next
  fix s :: string and w r
  assume r: "r = dropWhile (\<lambda>c. \<not> isWhitespace c) s" and ne: "r \<noteq> []"
  from ne have "isWhitespace (hd r)"
    unfolding r using hd_dropWhile [of "\<lambda>c. \<not> isWhitespace c" s] by simp
  with ne have "dropWhile isWhitespace r = dropWhile isWhitespace (tl r)"
    by (cases r) auto
  then have "length (dropWhile isWhitespace r) \<le> length (tl r)"
    using length_dropWhile_le [of isWhitespace "tl r"] by simp
  moreover have "length (tl r) < length r" using ne by (cases r) auto
  moreover have "length r \<le> length s" unfolding r by (rule length_dropWhile_le)
  ultimately show "(dropWhile isWhitespace r, s) \<in> measure length" by simp
qed

declare splitWhitespace.simps [simp del]

definition slice :: "'a list \<Rightarrow> nat \<Rightarrow> nat \<Rightarrow> 'a list" where
  \<comment> \<open>\<^verbatim>\<open>s.slice(a, b)\<close> for \<open>0 \<le> a\<close>, \<open>0 \<le> b\<close>.\<close>
  "slice s a b = take (b - a) (drop a s)"

subsection \<open>Edit distance\<close>

text \<open>
  \<^verbatim>\<open>src/index.ts\<close>: the full matrix of \<open>(str2.length + 1) \<times> (str1.length + 1)\<close> cells, filled
  row by row.
\<close>

definition lev_cell :: "'a list \<Rightarrow> 'a list \<Rightarrow> nat \<Rightarrow> nat list list \<Rightarrow> nat \<Rightarrow> nat list list" where
  \<comment> \<open>The body of the inner loop, for row \<open>i\<close> and column \<open>j\<close>.\<close>
  "lev_cell str1 str2 i matrix j =
     (let cost = (if str1 ! (j - 1) = str2 ! (i - 1) then 0 else 1);
          deletion = matrix ! (i - 1) ! j + 1;
          insertion = matrix ! i ! (j - 1) + 1;
          substitution = matrix ! (i - 1) ! (j - 1) + cost
      in matrix[i := (matrix ! i)[j := min deletion (min insertion substitution)]])"

definition lev_fill_row :: "'a list \<Rightarrow> 'a list \<Rightarrow> nat list list \<Rightarrow> nat \<Rightarrow> nat list list" where
  "lev_fill_row str1 str2 matrix i = foldl (lev_cell str1 str2 i) matrix [1..<length str1 + 1]"

definition levenshteinDistance_v1 :: "'a list \<Rightarrow> 'a list \<Rightarrow> nat" where
  "levenshteinDistance_v1 str1 str2 =
     (let matrix0 = replicate (length str2 + 1) (replicate (length str1 + 1) 0);
          matrix1 = foldl (\<lambda>m i. m[0 := (m ! 0)[i := i]]) matrix0 [0..<length str1 + 1];
          matrix2 = foldl (\<lambda>m j. m[j := (m ! j)[0 := j]]) matrix1 [0..<length str2 + 1];
          matrix3 = foldl (lev_fill_row str1 str2) matrix2 [1..<length str2 + 1]
      in matrix3 ! length str2 ! length str1)"

text \<open>
  The optimised revision: the shorter string indexes the columns, and two rows are kept.
  \<^verbatim>\<open>new Array(len1 + 1)\<close> leaves the slots of both rows empty; every slot is written
  before it is read, so the rows start here filled with \<open>0\<close>.
\<close>

definition row_cell :: "'a list \<Rightarrow> 'a list \<Rightarrow> nat \<Rightarrow> nat list \<Rightarrow> nat list \<Rightarrow> nat \<Rightarrow> nat list" where
  \<comment> \<open>The body of the inner loop: \<open>currRow[j]\<close> from \<open>prevRow\<close> and \<open>currRow[j - 1]\<close>.\<close>
  "row_cell str1 str2 i prevRow currRow j =
     (let cost = (if str1 ! (j - 1) = str2 ! (i - 1) then 0 else 1)
      in currRow[j := min (prevRow ! j + 1)
                          (min (currRow ! (j - 1) + 1) (prevRow ! (j - 1) + cost))])"

definition row_step :: "'a list \<Rightarrow> 'a list \<Rightarrow> nat list \<times> nat list \<Rightarrow> nat \<Rightarrow> nat list \<times> nat list" where
  \<comment> \<open>The body of the outer loop on the pair \<open>(prevRow, currRow)\<close>, ending with the swap.\<close>
  "row_step str1 str2 rows i =
     (let prevRow = fst rows;
          currRow = (snd rows)[0 := i];
          currRow' = foldl (row_cell str1 str2 i prevRow) currRow [1..<length str1 + 1]
      in (currRow', prevRow))"

definition levenshteinDistance :: "'a list \<Rightarrow> 'a list \<Rightarrow> nat" where
  "levenshteinDistance s1 s2 =
     (let str1 = (if length s1 > length s2 then s2 else s1);
          str2 = (if length s1 > length s2 then s1 else s2);
          len1 = length str1;
          len2 = length str2;
          prevRow = foldl (\<lambda>row i. row[i := i]) (replicate (len1 + 1) 0) [0..<len1 + 1];
          currRow = replicate (len1 + 1) 0;
          rows = foldl (row_step str1 str2) (prevRow, currRow) [1..<len2 + 1]
      in fst rows ! len1)"

subsection \<open>Matches and the field scorer\<close>

datatype match_type = ExactStart | ExactContain | Fuzzy

record SearchMatch =
  m_field :: string
  m_value :: string
  m_score :: rat
  m_type :: match_type
  m_position :: "int option"

record ScoreOptions =
  fuzzyThreshold :: rat
  minFuzzyLength :: nat
  caseSensitive :: bool

definition fuzzyCandidate ::
  "(string \<Rightarrow> string \<Rightarrow> nat) \<Rightarrow> string \<Rightarrow> string \<Rightarrow> rat \<Rightarrow> ScoreOptions \<Rightarrow>
   SearchMatch option \<Rightarrow> string \<Rightarrow> SearchMatch option" where
  \<comment> \<open>What both revisions do with one word of at least three characters: the new value of
      \<open>bestMatch\<close>.  The first argument is the revision's edit distance.\<close>
  "fuzzyCandidate lev text searchQuery fieldWeight options bestMatch word =
     (let distance = lev word searchQuery;
          maxLength = max (length word) (length searchQuery);
          similarity = (of_nat maxLength - of_nat distance) / of_nat maxLength
      in if similarity \<ge> fuzzyThreshold options then
           (let lengthBonus = max 1 (50 / of_nat (length text));
                score = fieldWeight * similarity * (2 + lengthBonus);
                m = \<lparr>m_field = [], m_value = text, m_score = score, m_type = Fuzzy,
                     m_position = None\<rparr>
            in case bestMatch of
                 None \<Rightarrow> Some m
               | Some b \<Rightarrow> if score > m_score b then Some m else bestMatch)
         else bestMatch)"

definition exactStartMatch :: "string \<Rightarrow> rat \<Rightarrow> SearchMatch" where
  "exactStartMatch text fieldWeight =
     \<lparr>m_field = [], m_value = text, m_score = fieldWeight * 20, m_type = ExactStart,
      m_position = Some 0\<rparr>"

definition exactContainMatch :: "string \<Rightarrow> rat \<Rightarrow> int \<Rightarrow> SearchMatch" where
  "exactContainMatch text fieldWeight position =
     (let lengthBonus = max 1 (100 / of_nat (length text));
          positionPenalty = of_int position * (1 / 10);
          score = fieldWeight * (10 + lengthBonus - positionPenalty)
      in \<lparr>m_field = [], m_value = text, m_score = max score fieldWeight,
          m_type = ExactContain, m_position = Some position\<rparr>)"

definition calculateFieldScore_v1 ::
  "string \<Rightarrow> string \<Rightarrow> rat \<Rightarrow> ScoreOptions \<Rightarrow> SearchMatch option" where
  "calculateFieldScore_v1 text query fieldWeight options =
     (if text = [] \<or> query = [] then None
      else
        (let searchText = (if caseSensitive options then text else toLowerCase text);
             searchQuery = (if caseSensitive options then query else toLowerCase query)
         in if startsWith searchText searchQuery then Some (exactStartMatch text fieldWeight)
            else if includes_str searchText searchQuery then
              Some (exactContainMatch text fieldWeight (indexOf searchText searchQuery))
            else if length searchQuery \<ge> minFuzzyLength options then
              foldl (\<lambda>bestMatch word.
                       if length word \<ge> 3
                       then fuzzyCandidate levenshteinDistance_v1 text searchQuery fieldWeight
                              options bestMatch word
                       else bestMatch)
                    None (splitWhitespace searchText)
            else None))"

text \<open>
  The optimised revision lower-cases through \<open>stringProcessingCache\<close>, a \<^verbatim>\<open>Map\<close> from
  \<^verbatim>\<open>"lc:" + str\<close> to the lower-cased string.  A \<^verbatim>\<open>Map\<close> keeps insertion order, which the
  eviction uses, so it is an association list, oldest entry first.
\<close>

type_synonym string_cache = "(string \<times> string) list"

definition MAX_STRING_CACHE_SIZE :: nat where
  "MAX_STRING_CACHE_SIZE = 500"

definition delete_keys :: "string list \<Rightarrow> string_cache \<Rightarrow> string_cache" where
  \<comment> \<open>\<^verbatim>\<open>keysToDelete.forEach(key => cache.delete(key))\<close>\<close>
  "delete_keys ks cache = filter (\<lambda>kv. fst kv \<notin> set ks) cache"

definition getProcessedString :: "string_cache \<Rightarrow> string \<Rightarrow> bool \<Rightarrow> string \<times> string_cache" where
  "getProcessedString cache str cs =
     (if cs then (str, cache)
      else
        (let cacheKey = ''lc:'' @ str
         in case map_of cache cacheKey of
              Some v \<Rightarrow> (v, cache)
            | None \<Rightarrow>
                (let processed = toLowerCase str;
                     cache1 = (if length cache \<ge> MAX_STRING_CACHE_SIZE
                               then delete_keys (take (MAX_STRING_CACHE_SIZE div 2) (map fst cache)) cache
                               else cache)
                 in (processed, cache1 @ [(cacheKey, processed)]))))"

definition fuzzyScan ::
  "string \<Rightarrow> string \<Rightarrow> string \<Rightarrow> rat \<Rightarrow> ScoreOptions \<Rightarrow>
   SearchMatch option \<times> nat \<Rightarrow> nat \<Rightarrow> SearchMatch option \<times> nat" where
  \<comment> \<open>The body of the word-splitting loop on the pair \<open>(bestMatch, wordStart)\<close>, at index \<open>i\<close>.\<close>
  "fuzzyScan text searchText searchQuery fieldWeight options st i =
     (if i = length searchText \<or> isWhitespace (searchText ! i) then
        ((if int i - int (snd st) \<ge> 3
          then fuzzyCandidate levenshteinDistance text searchQuery fieldWeight options (fst st)
                 (slice searchText (snd st) i)
          else fst st),
         i + 1)
      else st)"

definition calculateFieldScore ::
  "string_cache \<Rightarrow> string \<Rightarrow> string \<Rightarrow> rat \<Rightarrow> ScoreOptions \<Rightarrow>
   SearchMatch option \<times> string_cache" where
  "calculateFieldScore cache text query fieldWeight options =
     (if text = [] \<or> query = [] then (None, cache)
      else
        (let p1 = getProcessedString cache text (caseSensitive options);
             searchText = fst p1;
             p2 = getProcessedString (snd p1) query (caseSensitive options);
             searchQuery = fst p2;
             position = indexOf searchText searchQuery
         in (if startsWith searchText searchQuery then Some (exactStartMatch text fieldWeight)
             else if position \<noteq> -1 then Some (exactContainMatch text fieldWeight position)
             else if length searchQuery \<ge> minFuzzyLength options then
               fst (foldl (fuzzyScan text searchText searchQuery fieldWeight options)
                      (None, 0) [0..<length searchText + 1])
             else None,
             snd p2)))"

subsection \<open>Records and field resolution\<close>

text \<open>
  A record is any JavaScript value.  Objects and arrays carry their identity (a reference),
  which the \<^verbatim>\<open>WeakMap\<close> caches use as key and which \<open>item\<close> of a result refers to.  An
  object is the list of its own enumerable properties in \<^verbatim>\<open>Object.entries\<close> order;
  inherited properties (\<^verbatim>\<open>"constructor" in {}\<close>) are outside the model.
\<close>

type_synonym ref = nat

datatype jsval =
    Undefined
  | Null
  | Bool bool
  | Num rat
  | Str string
  | Obj ref "(string \<times> jsval) list"
  | Arr ref "jsval list"

fun truthy :: "jsval \<Rightarrow> bool" where
  "truthy Undefined = False"
| "truthy Null = False"
| "truthy (Bool b) = b"
| "truthy (Num r) = (r \<noteq> 0)"
| "truthy (Str s) = (s \<noteq> [])"
| "truthy (Obj r kvs) = True"
| "truthy (Arr r xs) = True"

fun typeof_object :: "jsval \<Rightarrow> bool" where
  \<comment> \<open>\<^verbatim>\<open>typeof v === "object"\<close>, which holds of \<^verbatim>\<open>null\<close> too.\<close>
  "typeof_object Null = True"
| "typeof_object (Obj r kvs) = True"
| "typeof_object (Arr r xs) = True"
| "typeof_object v = False"

fun show_nat :: "nat \<Rightarrow> string" where
  \<comment> \<open>The decimal numeral of an array index.\<close>
  "show_nat n =
     (if n < 10 then [char_of (48 + n)]
      else show_nat (n div 10) @ [char_of (48 + n mod 10)])"

declare show_nat.simps [simp del]

fun entries :: "jsval \<Rightarrow> (string \<times> jsval) list" where
  \<comment> \<open>\<^verbatim>\<open>Object.entries(v)\<close> for an object or an array.\<close>
  "entries (Obj r kvs) = kvs"
| "entries (Arr r xs) = zip (map show_nat [0..<length xs]) xs"
| "entries v = []"

fun property :: "jsval \<Rightarrow> string \<Rightarrow> jsval option" where
  \<comment> \<open>\<open>Some (v[key])\<close> when \<^verbatim>\<open>key in v\<close>, for an object or an array \<open>v\<close>.\<close>
  "property (Obj r kvs) key = map_of kvs key"
| "property (Arr r xs) key =
     (if key = ''length'' then Some (Num (of_nat (length xs)))
      else map_of (entries (Arr r xs)) key)"
| "property v key = None"

definition getNestedValue :: "jsval \<Rightarrow> string \<Rightarrow> jsval" where
  "getNestedValue obj path =
     (let r = foldl (\<lambda>current key.
                       if truthy current \<and> typeof_object current then
                         (case property current key of Some v \<Rightarrow> v | None \<Rightarrow> Str [])
                       else Str [])
                    obj (split_on CHR ''.'' path)
      in if r = Null \<or> r = Undefined then Str [] else r)"

definition fieldPathOf :: "string \<Rightarrow> string \<Rightarrow> string" where
  \<comment> \<open>\<^verbatim>\<open>prefix ? `${prefix}.${key}` : key\<close>\<close>
  "fieldPathOf pre key = (if pre \<noteq> [] then pre @ ''.'' @ key else key)"

fun detectStringFields_v1 :: "jsval \<Rightarrow> string \<Rightarrow> nat \<Rightarrow> string list" where
  "detectStringFields_v1 obj pre 0 = []"
| "detectStringFields_v1 obj pre (Suc d) =
     (if \<not> truthy obj \<or> \<not> typeof_object obj then []
      else concat (map (\<lambda>kv.
              (case snd kv of
                 Str v \<Rightarrow> if v \<noteq> [] then [fieldPathOf pre (fst kv)] else []
               | Obj r kvs \<Rightarrow> detectStringFields_v1 (Obj r kvs) (fieldPathOf pre (fst kv)) d
               | _ \<Rightarrow> []))
            (entries obj)))"

text \<open>
  The optimised revision memoises the result for a root object (empty prefix) in
  \<open>fieldDetectionCache\<close>, a \<^verbatim>\<open>WeakMap\<close> keyed by the object's identity.
\<close>

fun ref_of :: "jsval \<Rightarrow> ref" where
  "ref_of (Obj r kvs) = r"
| "ref_of (Arr r xs) = r"
| "ref_of v = 0"

fun detectStringFields ::
  "(ref \<rightharpoonup> string list) \<Rightarrow> jsval \<Rightarrow> string \<Rightarrow> nat \<Rightarrow> string list \<times> (ref \<rightharpoonup> string list)" where
  "detectStringFields cache obj pre 0 = ([], cache)"
| "detectStringFields cache obj pre (Suc d) =
     (if \<not> truthy obj \<or> \<not> typeof_object obj then ([], cache)
      else
        (case (if pre = [] then cache (ref_of obj) else None) of
           Some cached \<Rightarrow> (cached, cache)
         | None \<Rightarrow>
             (let res = foldl (\<lambda>acc kv.
                          (case snd kv of
                             Str v \<Rightarrow>
                               if v \<noteq> [] then (fst acc @ [fieldPathOf pre (fst kv)], snd acc) else acc
                           | Obj r kvs \<Rightarrow>
                               (let sub = detectStringFields (snd acc) (Obj r kvs)
                                            (fieldPathOf pre (fst kv)) d
                                in (fst acc @ fst sub, snd sub))
                           | _ \<Rightarrow> acc))
                        ([], cache) (entries obj)
              in (fst res, if pre = [] then (snd res)(ref_of obj \<mapsto> fst res) else snd res))))"

subsection \<open>Field statistics\<close>

record FieldStat =
  avgLength :: rat
  weight :: rat

definition nonEmptyStringLength :: "jsval \<Rightarrow> nat option" where
  \<comment> \<open>\<^verbatim>\<open>text && typeof text === "string" && text.length > 0\<close>, with the length.\<close>
  "nonEmptyStringLength text = (case text of Str v \<Rightarrow> if v \<noteq> [] then Some (length v) else None | _ \<Rightarrow> None)"

definition sampleLengths :: "jsval list \<Rightarrow> string \<Rightarrow> nat \<times> nat" where
  \<comment> \<open>The loop over the items: \<open>(totalLength, count)\<close>.\<close>
  "sampleLengths items fieldPath =
     foldl (\<lambda>acc item.
              (case nonEmptyStringLength (getNestedValue item fieldPath) of
                 Some n \<Rightarrow> (fst acc + n, snd acc + 1)
               | None \<Rightarrow> acc))
           (0, 0) items"

definition statOf :: "nat \<times> nat \<Rightarrow> string \<Rightarrow> FieldStat" where
  \<comment> \<open>The rest of \<open>calculateFieldStats\<close>, the same text in both revisions.\<close>
  "statOf tc fieldPath =
     (let avg = (if snd tc > 0 then of_nat (fst tc) / of_nat (snd tc) else 0);
          fieldName = toLowerCase (last (split_on CHR ''.'' fieldPath));
          baseWeight = (if fieldName \<in> set [''title'', ''name'', ''heading''] then 5
                        else if fieldName \<in> set [''description'', ''summary'', ''subtitle''] then 3
                        else if fieldName \<in> set [''content'', ''body'', ''text''] then 1
                        else 1);
          lengthWeight = (if avg < 50 then 2
                          else if avg < 100 then 3 / 2
                          else if avg < 300 then 6 / 5
                          else 1)
      in \<lparr>avgLength = avg, weight = baseWeight * lengthWeight\<rparr>)"

definition calculateFieldStats_v1 :: "jsval list \<Rightarrow> string \<Rightarrow> FieldStat" where
  \<comment> \<open>\<^verbatim>\<open>for (const item of data)\<close>\<close>
  "calculateFieldStats_v1 data fieldPath = statOf (sampleLengths data fieldPath) fieldPath"

definition calculateFieldStats :: "jsval list \<Rightarrow> string \<Rightarrow> FieldStat" where
  \<comment> \<open>\<^verbatim>\<open>for (let i = 0; i < Math.min(data.length, 100); i++)\<close>\<close>
  "calculateFieldStats data fieldPath =
     statOf (sampleLengths (map (\<lambda>i. data ! i) [0..<min (length data) 100]) fieldPath) fieldPath"

subsection \<open>Search\<close>

datatype error = TypeError

record SearchResult =
  item :: jsval
  score :: rat
  matches :: "SearchMatch list"

record SearchOptions =
  o_fields :: "string list option"
  o_fieldWeights :: "(string \<rightharpoonup> rat) option"
  o_fuzzyThreshold :: "rat option"
  o_minFuzzyLength :: "nat option"
  o_limit :: "nat option"
  o_caseSensitive :: "bool option"

definition DEFAULT_SEARCH_OPTIONS :: SearchOptions where
  "DEFAULT_SEARCH_OPTIONS =
     \<lparr>o_fields = None, o_fieldWeights = Some Map.empty, o_fuzzyThreshold = Some (7 / 10),
      o_minFuzzyLength = Some 3, o_limit = Some 100, o_caseSensitive = Some False\<rparr>"

definition orDefault :: "(SearchOptions \<Rightarrow> 'a option) \<Rightarrow> SearchOptions \<Rightarrow> 'a" where
  \<comment> \<open>A destructuring default: \<^verbatim>\<open>const { x = DEFAULT_SEARCH_OPTIONS.x } = options\<close>.\<close>
  "orDefault sel options =
     (case sel options of Some v \<Rightarrow> v | None \<Rightarrow> the (sel DEFAULT_SEARCH_OPTIONS))"

definition passThrough :: "jsval list \<Rightarrow> SearchResult list" where
  \<comment> \<open>\<^verbatim>\<open>data.map((item) => ({ item, score: 0, matches: [] }))\<close>\<close>
  "passThrough data = map (\<lambda>it. \<lparr>item = it, score = 0, matches = []\<rparr>) data"

definition defaultWeight :: "(string \<rightharpoonup> rat) \<Rightarrow> (string \<rightharpoonup> FieldStat) \<Rightarrow> string \<Rightarrow> rat" where
  \<comment> \<open>\<^verbatim>\<open>fieldWeights[field] ?? fieldStats.get(field)?.weight ?? 1\<close>\<close>
  "defaultWeight fieldWeights fieldStats field =
     (case fieldWeights field of
        Some w \<Rightarrow> w
      | None \<Rightarrow> (case fieldStats field of Some st \<Rightarrow> weight st | None \<Rightarrow> 1))"

definition totalLength :: "SearchResult \<Rightarrow> nat" where
  \<comment> \<open>\<^verbatim>\<open>a.matches.reduce((sum, match) => sum + match.value.length, 0)\<close>\<close>
  "totalLength a = foldl (\<lambda>sum m. sum + length (m_value m)) 0 (matches a)"

definition compareResults :: "SearchResult \<Rightarrow> SearchResult \<Rightarrow> rat" where
  \<comment> \<open>The comparator given to \<^verbatim>\<open>results.sort\<close>.\<close>
  "compareResults a b =
     (if score a \<noteq> score b then score b - score a
      else of_int (int (totalLength a) - int (totalLength b)))"

fun insort_by :: "('a \<Rightarrow> 'a \<Rightarrow> rat) \<Rightarrow> 'a \<Rightarrow> 'a list \<Rightarrow> 'a list" where
  "insort_by cmp x [] = [x]"
| "insort_by cmp x (y # ys) = (if cmp x y \<le> 0 then x # y # ys else y # insort_by cmp x ys)"

definition sort_by :: "('a \<Rightarrow> 'a \<Rightarrow> rat) \<Rightarrow> 'a list \<Rightarrow> 'a list" where
  \<comment> \<open>\<^verbatim>\<open>Array.prototype.sort\<close> with a comparator: a stable sort, here by insertion.\<close>
  "sort_by cmp xs = foldr (insort_by cmp) xs []"

definition truncate_results :: "nat \<Rightarrow> SearchResult list \<Rightarrow> SearchResult list" where
  \<comment> \<open>\<^verbatim>\<open>limit ? results.slice(0, limit) : results\<close>\<close>
  "truncate_results limit results = (if limit \<noteq> 0 then take limit results else results)"

text \<open>
  The loops of \<^verbatim>\<open>src/index.ts\<close>.  A field value that is truthy and not a string reaches
  \<open>calculateFieldScore\<close>, whose first string method call (\<^verbatim>\<open>toLowerCase\<close> or
  \<^verbatim>\<open>startsWith\<close>) throws a \<^verbatim>\<open>TypeError\<close>.
\<close>

fun scoreFields_v1 ::
  "string \<Rightarrow> (string \<rightharpoonup> rat) \<Rightarrow> (string \<rightharpoonup> FieldStat) \<Rightarrow> ScoreOptions \<Rightarrow> jsval \<Rightarrow>
   SearchMatch list \<times> rat \<Rightarrow> string list \<Rightarrow> error + SearchMatch list \<times> rat" where
  "scoreFields_v1 q fw fs so it acc [] = Inr acc"
| "scoreFields_v1 q fw fs so it acc (field # rest) =
     (let text = getNestedValue it field
      in if \<not> truthy text then scoreFields_v1 q fw fs so it acc rest
         else
           (case text of
              Str v \<Rightarrow>
                (case calculateFieldScore_v1 v q (defaultWeight fw fs field) so of
                   Some m \<Rightarrow>
                     scoreFields_v1 q fw fs so it
                       (fst acc @ [m\<lparr>m_field := field\<rparr>], snd acc + m_score m) rest
                 | None \<Rightarrow> scoreFields_v1 q fw fs so it acc rest)
            | _ \<Rightarrow> Inl TypeError))"

fun scanItems_v1 ::
  "string \<Rightarrow> (string \<rightharpoonup> rat) \<Rightarrow> (string \<rightharpoonup> FieldStat) \<Rightarrow> ScoreOptions \<Rightarrow> string list \<Rightarrow>
   SearchResult list \<Rightarrow> jsval list \<Rightarrow> error + SearchResult list" where
  "scanItems_v1 q fw fs so searchFields results [] = Inr results"
| "scanItems_v1 q fw fs so searchFields results (it # rest) =
     (case scoreFields_v1 q fw fs so it ([], 0) searchFields of
        Inl e \<Rightarrow> Inl e
      | Inr mt \<Rightarrow>
          scanItems_v1 q fw fs so searchFields
            (if fst mt \<noteq> [] then results @ [\<lparr>item = it, score = snd mt, matches = fst mt\<rparr>]
             else results)
            rest)"

definition search_v1 :: "jsval list \<Rightarrow> string \<Rightarrow> SearchOptions \<Rightarrow> error + SearchResult list" where
  "search_v1 data query options =
     (if trim query = [] then Inr (passThrough data)
      else
        (let fieldWeights = orDefault o_fieldWeights options;
             limit = orDefault o_limit options;
             searchQuery = trim query;
             searchOptions = \<lparr>fuzzyThreshold = orDefault o_fuzzyThreshold options,
                              minFuzzyLength = orDefault o_minFuzzyLength options,
                              caseSensitive = orDefault o_caseSensitive options\<rparr>;
             searchFields = (case o_fields options of
                               Some fs \<Rightarrow> fs
                             | None \<Rightarrow> if length data > 0
                                       then detectStringFields_v1 (data ! 0) [] 3 else []);
             fieldStats = map_of (map (\<lambda>f. (f, calculateFieldStats_v1 data f)) searchFields)
         in case scanItems_v1 searchQuery fieldWeights fieldStats searchOptions searchFields [] data of
              Inl e \<Rightarrow> Inl e
            | Inr results \<Rightarrow> Inr (truncate_results limit (sort_by compareResults results))))"

text \<open>
  The optimised revision.  Its state is the four module-level variables; a collection is
  the identity of the \<open>data\<close> array with its items.

  As in \<^verbatim>\<open>src/index.ts\<close>, a field value that is truthy and not a string makes the scorer
  throw a \<^verbatim>\<open>TypeError\<close>, before the string cache is written.  One path of the source is
  left out: in a case-insensitive search, when the string form of such a value is already
  a key of the string cache (\<^verbatim>\<open>"lc:30"\<close> for the number 30), \<open>getProcessedString\<close>
  returns the cached string instead of throwing, and the scorer goes on with a text that
  has no length.  The model throws there too.
\<close>

record Caches =
  fieldDetectionCache :: "ref \<rightharpoonup> string list"
  stringProcessingCache :: string_cache
  fieldStatsCache :: "ref \<rightharpoonup> (string \<rightharpoonup> FieldStat)"
  searchCallCount :: nat

definition emptyCaches :: Caches where
  "emptyCaches = \<lparr>fieldDetectionCache = Map.empty, stringProcessingCache = [],
                  fieldStatsCache = Map.empty, searchCallCount = 0\<rparr>"

definition clearSearchCaches :: "Caches \<Rightarrow> Caches" where
  \<comment> \<open>The two \<^verbatim>\<open>WeakMap\<close>s are left as they are.\<close>
  "clearSearchCaches st = st\<lparr>stringProcessingCache := [], searchCallCount := 0\<rparr>"

fun scoreFields ::
  "string \<Rightarrow> (string \<rightharpoonup> rat) \<Rightarrow> (string \<rightharpoonup> FieldStat) \<Rightarrow> ScoreOptions \<Rightarrow> jsval \<Rightarrow>
   string_cache \<Rightarrow> SearchMatch list \<times> rat \<Rightarrow> string list \<Rightarrow>
   (error + SearchMatch list \<times> rat) \<times> string_cache" where
  "scoreFields q fw fs so it cache acc [] = (Inr acc, cache)"
| "scoreFields q fw fs so it cache acc (field # rest) =
     (let text = getNestedValue it field
      in if \<not> truthy text then scoreFields q fw fs so it cache acc rest
         else
           (case text of
              Str v \<Rightarrow>
                (let r = calculateFieldScore cache v q (defaultWeight fw fs field) so
                 in case fst r of
                      Some m \<Rightarrow>
                        scoreFields q fw fs so it (snd r)
                          (fst acc @ [m\<lparr>m_field := field\<rparr>], snd acc + m_score m) rest
                    | None \<Rightarrow> scoreFields q fw fs so it (snd r) acc rest)
            | _ \<Rightarrow> (Inl TypeError, cache)))"

fun scanItems ::
  "string \<Rightarrow> (string \<rightharpoonup> rat) \<Rightarrow> (string \<rightharpoonup> FieldStat) \<Rightarrow> ScoreOptions \<Rightarrow> string list \<Rightarrow>
   nat \<Rightarrow> string_cache \<Rightarrow> SearchResult list \<Rightarrow> jsval list \<Rightarrow>
   (error + SearchResult list) \<times> string_cache" where
  "scanItems q fw fs so searchFields maxResults cache results [] = (Inr results, cache)"
| "scanItems q fw fs so searchFields maxResults cache results (it # rest) =
     (if \<not> truthy it then scanItems q fw fs so searchFields maxResults cache results rest
      else
        (let r = scoreFields q fw fs so it cache ([], 0) searchFields
         in case fst r of
              Inl e \<Rightarrow> (Inl e, snd r)
            | Inr mt \<Rightarrow>
                (let results' = (if fst mt \<noteq> []
                                 then results @ [\<lparr>item = it, score = snd mt, matches = fst mt\<rparr>]
                                 else results)
                 in if length results' \<ge> maxResults then (Inr results', snd r)
                    else scanItems q fw fs so searchFields maxResults (snd r) results' rest)))"

definition periodicCleanup :: "Caches \<Rightarrow> Caches" where
  \<comment> \<open>The first statements of \<open>search\<close>: count the call, and every 100th call drop the
      oldest 125 entries of a string cache of more than 250.\<close>
  "periodicCleanup st =
     (let st1 = st\<lparr>searchCallCount := searchCallCount st + 1\<rparr>
      in if searchCallCount st1 mod 100 = 0
            \<and> length (stringProcessingCache st1) > MAX_STRING_CACHE_SIZE div 2
         then st1\<lparr>stringProcessingCache :=
                    delete_keys (take (MAX_STRING_CACHE_SIZE div 4)
                                   (map fst (stringProcessingCache st1)))
                      (stringProcessingCache st1)\<rparr>
         else st1)"

definition search ::
  "Caches \<Rightarrow> ref \<times> jsval list \<Rightarrow> string \<Rightarrow> SearchOptions \<Rightarrow>
   (error + SearchResult list) \<times> Caches" where
  "search st data query options =
     (let st1 = periodicCleanup st
      in if trim query = [] then (Inr (passThrough (snd data)), st1)
         else
           (let fieldWeights = orDefault o_fieldWeights options;
                limit = orDefault o_limit options;
                searchQuery = trim query;
                searchOptions = \<lparr>fuzzyThreshold = orDefault o_fuzzyThreshold options,
                                 minFuzzyLength = orDefault o_minFuzzyLength options,
                                 caseSensitive = orDefault o_caseSensitive options\<rparr>;
                detected = (case o_fields options of
                              Some fs \<Rightarrow> (fs, fieldDetectionCache st1)
                            | None \<Rightarrow> if length (snd data) > 0
                                      then detectStringFields (fieldDetectionCache st1)
                                             (snd data ! 0) [] 3
                                      else ([], fieldDetectionCache st1));
                searchFields = fst detected;
                fieldStats = (case fieldStatsCache st1 (fst data) of
                                Some cached \<Rightarrow> cached
                              | None \<Rightarrow> map_of (map (\<lambda>f. (f, calculateFieldStats (snd data) f))
                                                  searchFields));
                st2 = st1\<lparr>fieldDetectionCache := snd detected,
                          fieldStatsCache := (fieldStatsCache st1)(fst data \<mapsto> fieldStats)\<rparr>;
                maxResults = (if limit \<noteq> 0 then limit * 3 else length (snd data));
                r = scanItems searchQuery fieldWeights fieldStats searchOptions searchFields
                      maxResults (stringProcessingCache st2) [] (snd data)
            in (case fst r of
                  Inl e \<Rightarrow> Inl e
                | Inr results \<Rightarrow> Inr (truncate_results limit (sort_by compareResults results)),
                st2\<lparr>stringProcessingCache := snd r\<rparr>)))"

subsection \<open>Notions used to state the properties\<close>

definition normalized :: "ScoreOptions \<Rightarrow> string \<Rightarrow> string" where
  "normalized options s = (if caseSensitive options then s else toLowerCase s)"

definition string_cache_ok :: "string_cache \<Rightarrow> bool" where
  "string_cache_ok cache = (\<forall>kv \<in> set cache. \<exists>s. fst kv = ''lc:'' @ s \<and> snd kv = toLowerCase s)"

definition fuzzy_only :: "SearchMatch option \<Rightarrow> bool" where
  "fuzzy_only b = (case b of None \<Rightarrow> True | Some m \<Rightarrow> m_type m = Fuzzy \<and> m_position m = None)"

text \<open>A call without options: \<^verbatim>\<open>search(data, query)\<close>.\<close>

definition noOptions :: SearchOptions where
  "noOptions = \<lparr>o_fields = None, o_fieldWeights = None, o_fuzzyThreshold = None,
                 o_minFuzzyLength = None, o_limit = None, o_caseSensitive = None\<rparr>"

text \<open>The field-weight estimate in the words of the specification.\<close>

definition fieldTextLengths :: "jsval list \<Rightarrow> string \<Rightarrow> nat list" where
  "fieldTextLengths items path =
     concat (map (\<lambda>it. case getNestedValue it path of
                          Str v \<Rightarrow> if v \<noteq> [] then [length v] else []
                        | _ \<Rightarrow> [])
                 items)"

definition averageLength :: "jsval list \<Rightarrow> string \<Rightarrow> rat" where
  "averageLength items path =
     (let ls = fieldTextLengths items path
      in if ls = [] then 0 else of_nat (sum_list ls) / of_nat (length ls))"

definition baseWeight :: "string \<Rightarrow> rat" where
  "baseWeight path =
     (let name = toLowerCase (last (split_on CHR ''.'' path))
      in if name = ''title'' \<or> name = ''name'' \<or> name = ''heading'' then 5
         else if name = ''description'' \<or> name = ''summary'' \<or> name = ''subtitle'' then 3
         else 1)"

definition lengthWeight :: "rat \<Rightarrow> rat" where
  "lengthWeight avg =
     (if avg < 50 then 2 else if avg < 100 then 3 / 2 else if avg < 300 then 6 / 5 else 1)"

text \<open>
  The scan of \<open>search\<close> in the optimised revision, with the bound \<open>maxResults\<close> as a
  parameter: the results collected before sorting.
\<close>

definition searchScan ::
  "Caches \<Rightarrow> ref \<times> jsval list \<Rightarrow> string \<Rightarrow> SearchOptions \<Rightarrow> nat \<Rightarrow> error + SearchResult list" where
  "searchScan st data query options maxResults =
     (let st1 = periodicCleanup st;
          detected = (case o_fields options of
                        Some fs \<Rightarrow> (fs, fieldDetectionCache st1)
                      | None \<Rightarrow> if length (snd data) > 0
                                then detectStringFields (fieldDetectionCache st1)
                                       (snd data ! 0) [] 3
                                else ([], fieldDetectionCache st1));
          searchFields = fst detected;
          fieldStats = (case fieldStatsCache st1 (fst data) of
                          Some cached \<Rightarrow> cached
                        | None \<Rightarrow> map_of (map (\<lambda>f. (f, calculateFieldStats (snd data) f))
                                            searchFields))
      in fst (scanItems (trim query) (orDefault o_fieldWeights options) fieldStats
                \<lparr>fuzzyThreshold = orDefault o_fuzzyThreshold options,
                 minFuzzyLength = orDefault o_minFuzzyLength options,
                 caseSensitive = orDefault o_caseSensitive options\<rparr>
                searchFields maxResults (stringProcessingCache st1) [] (snd data)))"

text \<open>
  Edit distance in the words of the specification: one edit inserts, deletes or replaces
  a single character anywhere in the string; \<open>edits n a b\<close> holds when \<open>n\<close> edits in a row
  turn \<open>a\<close> into \<open>b\<close>.  The function \<open>ed\<close> is the usual recursion on the first
  characters, and \<open>lev_table\<close> names the value that cell \<open>(i, j)\<close> of the dynamic
  programming table should hold.
\<close>

inductive edit_step :: "'a list \<Rightarrow> 'a list \<Rightarrow> bool" where
  insertion: "edit_step (u @ v) (u @ c # v)"
| deletion: "edit_step (u @ c # v) (u @ v)"
| substitution: "c \<noteq> d \<Longrightarrow> edit_step (u @ c # v) (u @ d # v)"

inductive edits :: "nat \<Rightarrow> 'a list \<Rightarrow> 'a list \<Rightarrow> bool" where
  none: "edits 0 a a"
| more: "edits n a b \<Longrightarrow> edit_step b c \<Longrightarrow> edits (Suc n) a c"

fun ed :: "'a list \<Rightarrow> 'a list \<Rightarrow> nat" where
  "ed [] ys = length ys"
| "ed (x # xs) [] = Suc (length xs)"
| "ed (x # xs) (y # ys) =
     min (ed xs (y # ys) + 1) (min (ed (x # xs) ys + 1) (ed xs ys + (if x = y then 0 else 1)))"

definition lev_table :: "'a list \<Rightarrow> 'a list \<Rightarrow> nat \<Rightarrow> nat \<Rightarrow> nat" where
  "lev_table str1 str2 i j = ed (rev (take j str1)) (rev (take i str2))"

text \<open>Invariants of the full matrix: its shape, and the cells filled so far.\<close>

definition matrix_ok :: "'a list \<Rightarrow> 'a list \<Rightarrow> nat list list \<Rightarrow> bool" where
  "matrix_ok str1 str2 m \<longleftrightarrow>
     length m = length str2 + 1 \<and> (\<forall>a < length str2 + 1. length (m ! a) = length str1 + 1)"

definition matrix_known :: "'a list \<Rightarrow> 'a list \<Rightarrow> nat list list \<Rightarrow> nat \<Rightarrow> nat \<Rightarrow> bool" where
  "matrix_known str1 str2 m i j \<longleftrightarrow>
     (\<forall>a b. a < length str2 + 1 \<longrightarrow> b < length str1 + 1 \<longrightarrow>
            (a = 0 \<or> b = 0 \<or> a < i \<or> (a = i \<and> b < j)) \<longrightarrow>
            m ! a ! b = lev_table str1 str2 a b)"

text \<open>
  The fuzzy tier in the words of the specification.  \<open>pieces\<close> cuts a string at every
  whitespace character; the words are the non-empty pieces.  The similarity of a word to
  the query is \<open>(maxLen - distance) / maxLen\<close> with the edit distance \<open>ed\<close>; a word
  qualifies when it has at least three characters and its similarity reaches the
  threshold; \<open>fuzzyTier\<close> is the match with the highest score among the qualifying words.
\<close>

fun pieces :: "string \<Rightarrow> string list" where
  "pieces [] = [[]]"
| "pieces (c # s) =
     (if isWhitespace c then [] # pieces s
      else (case pieces s of w # ws \<Rightarrow> (c # w) # ws | [] \<Rightarrow> [[c]]))"

definition words_of :: "string \<Rightarrow> string list" where
  "words_of s = filter (\<lambda>w. w \<noteq> []) (pieces s)"

definition similarity :: "string \<Rightarrow> string \<Rightarrow> rat" where
  "similarity word q =
     (of_nat (max (length word) (length q)) - of_nat (ed word q))
       / of_nat (max (length word) (length q))"

definition fuzzyScore :: "string \<Rightarrow> rat \<Rightarrow> rat \<Rightarrow> rat" where
  "fuzzyScore text w sim = w * sim * (2 + max 1 (50 / of_nat (length text)))"

definition qualifies :: "ScoreOptions \<Rightarrow> string \<Rightarrow> string \<Rightarrow> bool" where
  "qualifies options q word \<longleftrightarrow> length word \<ge> 3 \<and> similarity word q \<ge> fuzzyThreshold options"

definition fuzzyMatch :: "string \<Rightarrow> rat \<Rightarrow> SearchMatch" where
  "fuzzyMatch text s =
     \<lparr>m_field = [], m_value = text, m_score = s, m_type = Fuzzy, m_position = None\<rparr>"

fun bestScore :: "rat option \<Rightarrow> rat list \<Rightarrow> rat option" where
  "bestScore acc [] = acc"
| "bestScore acc (c # cs) =
     bestScore (case acc of None \<Rightarrow> Some c | Some a \<Rightarrow> if c > a then Some c else Some a) cs"

definition fuzzyTier :: "string \<Rightarrow> string \<Rightarrow> string \<Rightarrow> rat \<Rightarrow> ScoreOptions \<Rightarrow> SearchMatch option" where
  "fuzzyTier text t q w options =
     map_option (fuzzyMatch text)
       (bestScore None (map (\<lambda>word. fuzzyScore text w (similarity word q))
                          (filter (qualifies options q) (words_of t))))"

section \<open>Properties\<close>

subsection \<open>The string cache and \<open>indexOf\<close>\<close>

lemma string_cache_ok_lookup:
  assumes "string_cache_ok cache" and "map_of cache (''lc:'' @ s) = Some v"
  shows "v = toLowerCase s"
proof -
  from assms(2) have "(''lc:'' @ s, v) \<in> set cache" by (rule map_of_SomeD)
  with assms(1) obtain s' where "''lc:'' @ s = ''lc:'' @ s'" and "v = toLowerCase s'"
    unfolding string_cache_ok_def by fastforce
  then show ?thesis by simp
qed

lemma getProcessedString_fst:
  "string_cache_ok cache \<Longrightarrow> fst (getProcessedString cache s (caseSensitive options)) = normalized options s"
  by (auto simp: getProcessedString_def normalized_def Let_def dest: string_cache_ok_lookup split: option.splits)

lemma string_cache_ok_delete: "string_cache_ok cache \<Longrightarrow> string_cache_ok (delete_keys ks cache)"
  by (auto simp: string_cache_ok_def delete_keys_def)

lemma getProcessedString_ok:
  "string_cache_ok cache \<Longrightarrow> string_cache_ok (snd (getProcessedString cache s cs))"
  by (auto simp: getProcessedString_def Let_def string_cache_ok_delete split: option.splits)
     (auto simp: string_cache_ok_def delete_keys_def)

lemma indexOf_ge: "indexOf s q \<ge> -1"
  by (induction s) (auto simp: Let_def)

lemma indexOf_zero_iff: "indexOf s q = 0 \<longleftrightarrow> prefix q s"
proof (induction s)
  case Nil then show ?case by auto
next
  case (Cons c s)
  have "indexOf s q \<ge> -1" by (rule indexOf_ge)
  then show ?case by (auto simp: Let_def)
qed

lemma indexOf_first:
  "indexOf s q = int i \<Longrightarrow> i \<le> length s \<and> prefix q (drop i s) \<and> (\<forall>j<i. \<not> prefix q (drop j s))"
proof (induction s arbitrary: i)
  case Nil
  then show ?case by (auto split: if_splits)
next
  case (Cons c s)
  show ?case
  proof (cases "prefix q (c # s)")
    case True
    with Cons.prems show ?thesis by simp
  next
    case False
    with Cons.prems have r: "indexOf s q \<noteq> -1" and i: "int i = indexOf s q + 1"
      by (auto simp: Let_def split: if_splits)
    from r indexOf_ge [of s q] i have "i \<noteq> 0" by auto
    then obtain k where k1: "i = Suc k" by (cases i) auto
    with i have k2: "indexOf s q = int k" by simp
    note k = k1 k2
    from Cons.IH [OF k(2)] False show ?thesis
      unfolding k(1) by (auto simp: less_Suc_eq_0_disj)
  qed
qed

lemma indexOf_none: "indexOf s q = -1 \<Longrightarrow> \<not> prefix q (drop j s)"
proof (induction s arbitrary: j)
  case Nil then show ?case by (auto split: if_splits)
next
  case (Cons c s)
  then have a: "\<not> prefix q (c # s)" and b: "indexOf s q = -1"
    using indexOf_ge [of s q] by (auto simp: Let_def split: if_splits)
  show ?case using a Cons.IH [OF b] by (cases j) auto
qed

subsection \<open>Empty query\<close>

text \<open>
  C9. For a query whose trim is empty, \<open>search\<close> returns one result per record, in the
  order of the collection, each with score 0 and no matches, so as many results as there
  are records; no field is detected, weighted or matched.  This holds of both revisions,
  and in the optimised one from any state of the caches.
\<close>

theorem empty_query_pass_through:
  "trim query = [] \<Longrightarrow>
     search_v1 data query options = Inr (map (\<lambda>it. \<lparr>item = it, score = 0, matches = []\<rparr>) data)
   \<and> fst (search st (r, data) query options)
       = Inr (map (\<lambda>it. \<lparr>item = it, score = 0, matches = []\<rparr>) data)"
  by (simp add: search_v1_def search_def passThrough_def Let_def)

theorem empty_query_pass_through_witness:
  "trim ''  '' = [] \<and>
   search_v1 [Str ''a'', Null] ''  '' DEFAULT_SEARCH_OPTIONS
     = Inr [\<lparr>item = Str ''a'', score = 0, matches = []\<rparr>, \<lparr>item = Null, score = 0, matches = []\<rparr>]
   \<and> fst (search emptyCaches (1, [Str ''a'', Null]) ''  '' DEFAULT_SEARCH_OPTIONS)
     = Inr [\<lparr>item = Str ''a'', score = 0, matches = []\<rparr>, \<lparr>item = Null, score = 0, matches = []\<rparr>]"
  using empty_query_pass_through [of "''  ''" "[Str ''a'', Null]" DEFAULT_SEARCH_OPTIONS emptyCaches 1]
  by (simp add: trim_def isWhitespace_def)

subsection \<open>The three tiers of the field scorer\<close>

lemma fuzzyCandidate_fuzzy_only:
  "fuzzy_only b \<Longrightarrow> fuzzy_only (fuzzyCandidate lev text q w options b word)"
  by (auto simp: fuzzyCandidate_def fuzzy_only_def Let_def split: option.splits)

lemma fuzzy_words_fuzzy_only:
  "fuzzy_only b \<Longrightarrow>
   fuzzy_only (foldl (\<lambda>bestMatch word.
                       if length word \<ge> 3
                       then fuzzyCandidate lev text q w options bestMatch word
                       else bestMatch) b ws)"
  by (induction ws arbitrary: b) (auto simp: fuzzyCandidate_fuzzy_only)

lemma fuzzyScan_fuzzy_only:
  "fuzzy_only (fst st) \<Longrightarrow> fuzzy_only (fst (fuzzyScan text st' q w options st i))"
  by (auto simp: fuzzyScan_def fuzzyCandidate_fuzzy_only)

lemma fuzzy_scan_fuzzy_only:
  "fuzzy_only (fst st) \<Longrightarrow> fuzzy_only (fst (foldl (fuzzyScan text st' q w options) st is))"
  by (induction "is" arbitrary: st) (auto simp: fuzzyScan_fuzzy_only)

lemma calculateFieldScore_v1_unfold:
  "text \<noteq> [] \<Longrightarrow> query \<noteq> [] \<Longrightarrow>
   calculateFieldScore_v1 text query w options =
     (let searchText = normalized options text; searchQuery = normalized options query
      in if startsWith searchText searchQuery then Some (exactStartMatch text w)
         else if indexOf searchText searchQuery \<noteq> -1 then
           Some (exactContainMatch text w (indexOf searchText searchQuery))
         else if length searchQuery \<ge> minFuzzyLength options then
           foldl (\<lambda>bestMatch word.
                    if length word \<ge> 3
                    then fuzzyCandidate levenshteinDistance_v1 text searchQuery w options bestMatch word
                    else bestMatch)
                 None (splitWhitespace searchText)
         else None)"
  by (simp add: calculateFieldScore_v1_def normalized_def includes_str_def Let_def)

lemma calculateFieldScore_unfold:
  assumes "string_cache_ok cache" "text \<noteq> []" "query \<noteq> []"
  shows "fst (calculateFieldScore cache text query w options) =
     (let searchText = normalized options text; searchQuery = normalized options query
      in if startsWith searchText searchQuery then Some (exactStartMatch text w)
         else if indexOf searchText searchQuery \<noteq> -1 then
           Some (exactContainMatch text w (indexOf searchText searchQuery))
         else if length searchQuery \<ge> minFuzzyLength options then
           fst (foldl (fuzzyScan text searchText searchQuery w options)
                  (None, 0) [0..<length searchText + 1])
         else None)"
proof -
  let ?p1 = "getProcessedString cache text (caseSensitive options)"
  have 1: "fst ?p1 = normalized options text"
    using assms(1) by (rule getProcessedString_fst)
  have "string_cache_ok (snd ?p1)" using assms(1) by (rule getProcessedString_ok)
  then have 2: "fst (getProcessedString (snd ?p1) query (caseSensitive options)) = normalized options query"
    by (rule getProcessedString_fst)
  show ?thesis
    using assms(2,3) by (simp add: calculateFieldScore_def Let_def 1 2)
qed

lemma calculateFieldScore_ok:
  "string_cache_ok cache \<Longrightarrow> string_cache_ok (snd (calculateFieldScore cache text query w options))"
  by (simp add: calculateFieldScore_def Let_def getProcessedString_ok)

lemma calculateFieldScore_empty:
  "text = [] \<or> query = [] \<Longrightarrow> calculateFieldScore_v1 text query w options = None"
  "text = [] \<or> query = [] \<Longrightarrow> fst (calculateFieldScore cache text query w options) = None"
  by (auto simp: calculateFieldScore_v1_def calculateFieldScore_def)

text \<open>
  C8. For a non-empty text and a non-empty query, when the normalised text starts with the
  normalised query the scorer returns exactly one match: kind exact-start, score
  \<open>weight \<times> 20\<close>, position 0.  The result is that match whatever the substring and fuzzy
  rules would give, and the scorer returns at most one match (an option), of one kind.
  In the optimised revision the normalised strings come from the string cache, which
  holds lower-cased strings under their keys (\<open>string_cache_ok\<close>).
\<close>

theorem prefix_match:
  "text \<noteq> [] \<Longrightarrow> query \<noteq> [] \<Longrightarrow>
   startsWith (normalized options text) (normalized options query) \<Longrightarrow>
     calculateFieldScore_v1 text query w options
       = Some \<lparr>m_field = [], m_value = text, m_score = w * 20, m_type = ExactStart,
               m_position = Some 0\<rparr>
   \<and> (string_cache_ok cache \<longrightarrow>
        fst (calculateFieldScore cache text query w options)
          = Some \<lparr>m_field = [], m_value = text, m_score = w * 20, m_type = ExactStart,
                  m_position = Some 0\<rparr>)"
  by (simp add: calculateFieldScore_v1_unfold calculateFieldScore_unfold exactStartMatch_def)


theorem prefix_match_witness:
  "''John Doe'' \<noteq> [] \<and> ''john'' \<noteq> [] \<and>
   startsWith (normalized \<lparr>fuzzyThreshold = 7 / 10, minFuzzyLength = 3, caseSensitive = False\<rparr> ''John Doe'')
              (normalized \<lparr>fuzzyThreshold = 7 / 10, minFuzzyLength = 3, caseSensitive = False\<rparr> ''john'') \<and>
   string_cache_ok [] \<and>
   calculateFieldScore_v1 ''John Doe'' ''john'' 10
       \<lparr>fuzzyThreshold = 7 / 10, minFuzzyLength = 3, caseSensitive = False\<rparr>
     = Some \<lparr>m_field = [], m_value = ''John Doe'', m_score = 200, m_type = ExactStart,
             m_position = Some 0\<rparr> \<and>
   fst (calculateFieldScore [] ''John Doe'' ''john'' 10
       \<lparr>fuzzyThreshold = 7 / 10, minFuzzyLength = 3, caseSensitive = False\<rparr>)
     = Some \<lparr>m_field = [], m_value = ''John Doe'', m_score = 200, m_type = ExactStart,
             m_position = Some 0\<rparr>"
proof -
  let ?o = "\<lparr>fuzzyThreshold = 7 / 10, minFuzzyLength = 3, caseSensitive = False\<rparr>"
  have h: "startsWith (normalized ?o ''John Doe'') (normalized ?o ''john'')"
    by code_simp
  have c: "string_cache_ok []" by (simp add: string_cache_ok_def)
  show ?thesis
    using prefix_match [of "''John Doe''" "''john''" ?o 10 "[]"] h c by simp
qed

text \<open>
  C7. A match of kind exact-contain has the score
  \<open>max (weight \<times> (10 + max 1 (100 / length text) - position \<times> 0.1)) weight\<close>, where
  \<open>position\<close> is the index of the first occurrence of the normalised query in the
  normalised text, and so its score is at least \<open>weight\<close>.  Both revisions.
\<close>

theorem substring_score:
  assumes "r = calculateFieldScore_v1 text query w options
           \<or> (string_cache_ok cache \<and> r = fst (calculateFieldScore cache text query w options))"
    and "r = Some m" and "m_type m = ExactContain"
  shows "\<exists>p. indexOf (normalized options text) (normalized options query) = int p
           \<and> prefix (normalized options query) (drop p (normalized options text))
           \<and> (\<forall>j<p. \<not> prefix (normalized options query) (drop j (normalized options text)))
           \<and> m_position m = Some (int p)
           \<and> m_score m = max (w * (10 + max 1 (100 / of_nat (length text)) - of_nat p * (1 / 10))) w
           \<and> m_score m \<ge> w"
proof -
  let ?t = "normalized options text" and ?q = "normalized options query"
  have ne: "text \<noteq> []" "query \<noteq> []"
    using assms calculateFieldScore_empty(1) [of "text" query w options] calculateFieldScore_empty(2) [of "text" query cache w options] by auto
  have nofuzzy: "fuzzy_only r \<Longrightarrow> False"
    using assms(2,3) by (simp add: fuzzy_only_def)
  have fz1: "fuzzy_only (foldl (\<lambda>bestMatch word.
                       if length word \<ge> 3
                       then fuzzyCandidate levenshteinDistance_v1 text ?q w options bestMatch word
                       else bestMatch) None (splitWhitespace ?t))"
    by (rule fuzzy_words_fuzzy_only) (simp add: fuzzy_only_def)
  have fz2: "fuzzy_only (fst (foldl (fuzzyScan text ?t ?q w options) (None, 0) [0..<length ?t + 1]))"
    by (rule fuzzy_scan_fuzzy_only) (simp add: fuzzy_only_def)
  have shape: "r = (if startsWith ?t ?q then Some (exactStartMatch text w)
                    else if indexOf ?t ?q \<noteq> -1 then Some (exactContainMatch text w (indexOf ?t ?q))
                    else r) \<and> (\<not> startsWith ?t ?q \<and> indexOf ?t ?q = -1 \<longrightarrow> fuzzy_only r)"
    using assms(1) ne fz1 fz2
    by (auto simp: calculateFieldScore_v1_unfold calculateFieldScore_unfold Let_def fuzzy_only_def)
  have "\<not> startsWith ?t ?q \<and> indexOf ?t ?q \<noteq> -1 \<and> m = exactContainMatch text w (indexOf ?t ?q)"
  proof (cases "startsWith ?t ?q")
    case True
    with shape assms(2,3) show ?thesis by (simp add: exactStartMatch_def)
  next
    case False
    note ns = this
    show ?thesis
    proof (cases "indexOf ?t ?q = -1")
      case True
      with shape ns nofuzzy show ?thesis by blast
    next
      case False
      with shape ns assms(2) show ?thesis by simp
    qed
  qed
  then have ns: "\<not> startsWith ?t ?q" and ix: "indexOf ?t ?q \<noteq> -1"
    and m: "m = exactContainMatch text w (indexOf ?t ?q)" by auto
  from ix indexOf_ge [of ?t ?q] have "0 \<le> indexOf ?t ?q" by linarith
  then obtain p where p: "indexOf ?t ?q = int p" using nonneg_int_cases by blast
  from indexOf_first [OF p] have "prefix ?q (drop p ?t)" "\<forall>j<p. \<not> prefix ?q (drop j ?t)"
    by auto
  moreover have "m_position m = Some (int p)"
    and "m_score m = max (w * (10 + max 1 (100 / of_nat (length text)) - of_nat p * (1 / 10))) w"
    unfolding m p by (simp_all add: exactContainMatch_def Let_def)
  ultimately show ?thesis using p by auto
qed

text \<open>
  C10. In a match returned by the scorer, the position is 0 exactly for kind exact-start,
  it is at least 1 exactly for kind exact-contain, and it is absent exactly for kind
  fuzzy.  Both revisions, the optimised one from any string cache.
\<close>

theorem position_kind:
  assumes "r = calculateFieldScore_v1 text query w options
           \<or> r = fst (calculateFieldScore cache text query w options)"
    and "r = Some m"
  shows "(m_type m = ExactStart \<longleftrightarrow> m_position m = Some 0)
       \<and> (m_type m = ExactContain \<longleftrightarrow> (\<exists>p\<ge>1. m_position m = Some p))
       \<and> (m_type m = Fuzzy \<longleftrightarrow> m_position m = None)"
proof -
  define good where "good b \<longleftrightarrow> (case b of None \<Rightarrow> True | Some m \<Rightarrow>
       (m_type m = ExactStart \<longleftrightarrow> m_position m = Some 0)
     \<and> (m_type m = ExactContain \<longleftrightarrow> (\<exists>p\<ge>1. m_position m = Some p))
     \<and> (m_type m = Fuzzy \<longleftrightarrow> m_position m = None))" for b :: "SearchMatch option"
  have fz: "fuzzy_only b \<Longrightarrow> good b" for b
    by (auto simp: fuzzy_only_def good_def split: option.splits)
  have st: "good (Some (exactStartMatch text w))"
    by (simp add: good_def exactStartMatch_def)
  have ct: "good (Some (exactContainMatch text w (indexOf s q)))" if "\<not> startsWith s q" "indexOf s q \<noteq> -1" for s q
  proof -
    from that indexOf_zero_iff [of s q] indexOf_ge [of s q] have "indexOf s q \<ge> 1"
      by (simp add: startsWith_def)
    then show ?thesis by (simp add: good_def exactContainMatch_def Let_def)
  qed
  have gn: "good None" by (simp add: good_def)
  have fz1: "good (foldl (\<lambda>bestMatch word.
                       if length word \<ge> 3
                       then fuzzyCandidate lev text q w options bestMatch word
                       else bestMatch) None ws)" for lev q ws
    by (rule fz, rule fuzzy_words_fuzzy_only) (simp add: fuzzy_only_def)
  have fz2: "good (fst (foldl (fuzzyScan text s q w options) (None, 0) js))" for s q js
    by (rule fz, rule fuzzy_scan_fuzzy_only) (simp add: fuzzy_only_def)
  have "good (calculateFieldScore_v1 text query w options)"
    by (simp add: calculateFieldScore_v1_def Let_def includes_str_def gn st ct fz1)
  moreover have "good (fst (calculateFieldScore cache text query w options))"
    by (simp add: calculateFieldScore_def Let_def gn st ct fz2 del: upt_Suc)
  ultimately have "good r" using assms(1) by auto
  with assms(2) show ?thesis by (simp add: good_def)
qed


theorem substring_score_witness:
  "calculateFieldScore_v1 ''Bob Johnson'' ''john'' 10
       \<lparr>fuzzyThreshold = 7 / 10, minFuzzyLength = 3, caseSensitive = False\<rparr>
     = Some \<lparr>m_field = [], m_value = ''Bob Johnson'', m_score = 2056 / 11,
             m_type = ExactContain, m_position = Some 4\<rparr>
   \<and> string_cache_ok []
   \<and> fst (calculateFieldScore [] ''Bob Johnson'' ''john'' 10
       \<lparr>fuzzyThreshold = 7 / 10, minFuzzyLength = 3, caseSensitive = False\<rparr>)
     = Some \<lparr>m_field = [], m_value = ''Bob Johnson'', m_score = 2056 / 11,
             m_type = ExactContain, m_position = Some 4\<rparr>
   \<and> (2056 / 11 :: rat) = max (10 * (10 + max 1 (100 / of_nat (length ''Bob Johnson'')) - of_nat 4 * (1 / 10))) 10
   \<and> (2056 / 11 :: rat) \<ge> 10"
proof -
  let ?o = "\<lparr>fuzzyThreshold = 7 / 10, minFuzzyLength = 3, caseSensitive = False\<rparr>"
  let ?m = "\<lparr>m_field = [], m_value = ''Bob Johnson'', m_score = 2056 / 11,
             m_type = ExactContain, m_position = Some 4\<rparr>"
  have e1: "calculateFieldScore_v1 ''Bob Johnson'' ''john'' 10 ?o = Some ?m"
    by code_simp
  have e2: "fst (calculateFieldScore [] ''Bob Johnson'' ''john'' 10 ?o) = Some ?m"
    by code_simp
  have c: "string_cache_ok []" by (simp add: string_cache_ok_def)
  have "\<exists>p. m_position ?m = Some (int p)
           \<and> m_score ?m = max (10 * (10 + max 1 (100 / of_nat (length ''Bob Johnson'')) - of_nat p * (1 / 10))) 10
           \<and> m_score ?m \<ge> 10"
    using substring_score [of "Some ?m" "''Bob Johnson''" "''john''" 10 ?o "[]" ?m] e1 by auto
  moreover have "\<exists>p. m_position ?m = Some (int p)
           \<and> m_score ?m = max (10 * (10 + max 1 (100 / of_nat (length ''Bob Johnson'')) - of_nat p * (1 / 10))) 10
           \<and> m_score ?m \<ge> 10"
    using substring_score [of "Some ?m" "''Bob Johnson''" "''john''" 10 ?o "[]" ?m] e2 c by auto
  ultimately show ?thesis using e1 e2 c by auto
qed

theorem position_kind_witness:
  "calculateFieldScore_v1 ''Bob Johnson'' ''john'' 10
       \<lparr>fuzzyThreshold = 7 / 10, minFuzzyLength = 3, caseSensitive = False\<rparr>
     = Some \<lparr>m_field = [], m_value = ''Bob Johnson'', m_score = 2056 / 11,
             m_type = ExactContain, m_position = Some 4\<rparr>
   \<and> fst (calculateFieldScore [] ''Bob Johnson'' ''john'' 10
       \<lparr>fuzzyThreshold = 7 / 10, minFuzzyLength = 3, caseSensitive = False\<rparr>)
     = Some \<lparr>m_field = [], m_value = ''Bob Johnson'', m_score = 2056 / 11,
             m_type = ExactContain, m_position = Some 4\<rparr>
   \<and> (\<exists>p\<ge>1. Some (4 :: int) = Some p)"
proof -
  let ?o = "\<lparr>fuzzyThreshold = 7 / 10, minFuzzyLength = 3, caseSensitive = False\<rparr>"
  let ?m = "\<lparr>m_field = [], m_value = ''Bob Johnson'', m_score = 2056 / 11,
             m_type = ExactContain, m_position = Some 4\<rparr>"
  have e1: "calculateFieldScore_v1 ''Bob Johnson'' ''john'' 10 ?o = Some ?m"
    by code_simp
  have e2: "fst (calculateFieldScore [] ''Bob Johnson'' ''john'' 10 ?o) = Some ?m"
    by code_simp
  show ?thesis
    using position_kind [of "Some ?m" "''Bob Johnson''" "''john''" 10 ?o "[]" ?m] e1 e2 by simp
qed

subsection \<open>Field resolution\<close>

text \<open>
  C3. \<open>getNestedValue\<close> is total, but it does not always return a string: it returns the
  value found at the path as it is.  For the record \<^verbatim>\<open>{age: 30}\<close> and the path \<^verbatim>\<open>"age"\<close> the
  result is the number 30, and a search over that field then fails with a \<^verbatim>\<open>TypeError\<close>
  in both revisions.  The same happens with auto-detected fields when a later record holds
  a number where the first record holds a string.
\<close>

theorem getNestedValue_non_string:
  "getNestedValue (Obj 1 [(''age'', Num 30)]) ''age'' = Num 30
   \<and> search_v1 [Obj 1 [(''age'', Num 30)]] ''3'' (noOptions\<lparr>o_fields := Some [''age'']\<rparr>)
       = Inl TypeError
   \<and> fst (search emptyCaches (2, [Obj 1 [(''age'', Num 30)]]) ''3''
            (noOptions\<lparr>o_fields := Some [''age'']\<rparr>))
       = Inl TypeError
   \<and> search_v1 [Obj 1 [(''name'', Str ''x'')], Obj 2 [(''name'', Num 5)]] ''x'' noOptions
       = Inl TypeError
   \<and> fst (search emptyCaches (3, [Obj 1 [(''name'', Str ''x'')], Obj 2 [(''name'', Num 5)]])
            ''x'' noOptions)
       = Inl TypeError"
  by code_simp

subsection \<open>Cached field statistics\<close>

text \<open>
  C2. The result of \<open>search\<close> depends on the state of \<open>fieldStatsCache\<close>, which is keyed by
  the collection alone.  With cold caches a search for \<^verbatim>\<open>"john"\<close> in the field \<^verbatim>\<open>title\<close>
  of \<^verbatim>\<open>[{title: "john"}]\<close> scores 200 (inferred weight 10); after a search of the same
  collection in the field \<^verbatim>\<open>name\<close> the same call scores 20, because the cached statistics
  have no entry for \<^verbatim>\<open>title\<close> and the weight falls back to 1.  Clearing the caches with
  \<open>clearSearchCaches\<close> in between does not help: it leaves the two \<^verbatim>\<open>WeakMap\<close>s as they
  are.
\<close>

theorem stale_field_stats:
  "fst (search emptyCaches (7, [Obj 1 [(''title'', Str ''john'')]]) ''john''
          (noOptions\<lparr>o_fields := Some [''title'']\<rparr>))
     = Inr [\<lparr>item = Obj 1 [(''title'', Str ''john'')], score = 200,
             matches = [\<lparr>m_field = ''title'', m_value = ''john'', m_score = 200,
                         m_type = ExactStart, m_position = Some 0\<rparr>]\<rparr>]
   \<and> fst (search
            (snd (search emptyCaches (7, [Obj 1 [(''title'', Str ''john'')]]) ''john''
                    (noOptions\<lparr>o_fields := Some [''name'']\<rparr>)))
            (7, [Obj 1 [(''title'', Str ''john'')]]) ''john''
            (noOptions\<lparr>o_fields := Some [''title'']\<rparr>))
     = Inr [\<lparr>item = Obj 1 [(''title'', Str ''john'')], score = 20,
             matches = [\<lparr>m_field = ''title'', m_value = ''john'', m_score = 20,
                         m_type = ExactStart, m_position = Some 0\<rparr>]\<rparr>]
   \<and> fst (search
            (clearSearchCaches
               (snd (search emptyCaches (7, [Obj 1 [(''title'', Str ''john'')]]) ''john''
                       (noOptions\<lparr>o_fields := Some [''name'']\<rparr>))))
            (7, [Obj 1 [(''title'', Str ''john'')]]) ''john''
            (noOptions\<lparr>o_fields := Some [''title'']\<rparr>))
     = Inr [\<lparr>item = Obj 1 [(''title'', Str ''john'')], score = 20,
             matches = [\<lparr>m_field = ''title'', m_value = ''john'', m_score = 20,
                         m_type = ExactStart, m_position = Some 0\<rparr>]\<rparr>]"
  by code_simp

subsection \<open>Field-weight estimate\<close>

lemma fieldTextLengths_Cons:
  "fieldTextLengths (it # items) path =
     (case nonEmptyStringLength (getNestedValue it path) of Some n \<Rightarrow> [n] | None \<Rightarrow> [])
     @ fieldTextLengths items path"
  by (simp add: fieldTextLengths_def nonEmptyStringLength_def split: jsval.splits)

lemma sampleLengths_foldl:
  "foldl (\<lambda>acc item.
              (case nonEmptyStringLength (getNestedValue item path) of
                 Some n \<Rightarrow> (fst acc + n, snd acc + 1)
               | None \<Rightarrow> acc))
         (t, c) items
   = (t + sum_list (fieldTextLengths items path), c + length (fieldTextLengths items path))"
proof (induction items arbitrary: t c)
  case Nil
  then show ?case by (simp add: fieldTextLengths_def)
next
  case (Cons it items)
  show ?case
    by (cases "nonEmptyStringLength (getNestedValue it path)")
       (simp_all add: Cons.IH fieldTextLengths_Cons)
qed

lemma sampleLengths_eq:
  "sampleLengths items path
   = (sum_list (fieldTextLengths items path), length (fieldTextLengths items path))"
  unfolding sampleLengths_def by (simp add: sampleLengths_foldl)

lemma statOf_eq:
  "statOf (sampleLengths items path) path
   = \<lparr>avgLength = averageLength items path,
      weight = baseWeight path * lengthWeight (averageLength items path)\<rparr>"
  by (simp add: statOf_def sampleLengths_eq averageLength_def baseWeight_def lengthWeight_def Let_def)

lemma first_100: "map (\<lambda>i. data ! i) [0..<min (length data) 100] = take 100 data"
  by (simp add: list_eq_iff_nth_eq)

lemma calculateFieldStats_take:
  "calculateFieldStats data path = statOf (sampleLengths (take 100 data) path) path"
  unfolding calculateFieldStats_def first_100 ..

text \<open>
  C4, as amended.  In the optimised revision \<open>calculateFieldStats\<close> depends on the first
  100 records only; in \<^verbatim>\<open>src/index.ts\<close> it reads every record of the collection.  In both,
  \<open>avgLength\<close> is the mean length of the non-empty strings found at the path in the records
  read (0 when there is none), and the weight is the base weight of the lower-cased last
  path segment (5 for title, name, heading; 3 for description, summary, subtitle; else 1)
  times the length weight (2 below 50, 1.5 below 100, 1.2 below 300, else 1).
\<close>

theorem field_stats_sample:
  "calculateFieldStats data path
     = \<lparr>avgLength = averageLength (take 100 data) path,
        weight = baseWeight path * lengthWeight (averageLength (take 100 data) path)\<rparr>
   \<and> calculateFieldStats data path = calculateFieldStats (take 100 data) path
   \<and> calculateFieldStats_v1 data path
     = \<lparr>avgLength = averageLength data path,
        weight = baseWeight path * lengthWeight (averageLength data path)\<rparr>"
proof -
  have "calculateFieldStats (take 100 data) path = calculateFieldStats data path"
    by (simp add: calculateFieldStats_take)
  then show ?thesis
    by (simp add: calculateFieldStats_take calculateFieldStats_v1_def statOf_eq)
qed

text \<open>
  C4, as stated, fails in \<^verbatim>\<open>src/index.ts\<close>: two collections of 102 records that agree on
  the records at the indices 0 to 100 and differ at index 101 get different average
  lengths for the field \<^verbatim>\<open>t\<close>.
\<close>

theorem field_stats_v1_all_records:
  "take 101 (replicate 101 (Obj 1 [(''t'', Str ''a'')]) @ [Obj 2 [(''t'', Str ''abc'')]])
     = take 101 (replicate 101 (Obj 1 [(''t'', Str ''a'')]) @ [Obj 2 [(''t'', Str ''a'')]])
   \<and> avgLength (calculateFieldStats_v1
        (replicate 101 (Obj 1 [(''t'', Str ''a'')]) @ [Obj 2 [(''t'', Str ''abc'')]]) ''t'')
     \<noteq> avgLength (calculateFieldStats_v1
        (replicate 101 (Obj 1 [(''t'', Str ''a'')]) @ [Obj 2 [(''t'', Str ''a'')]]) ''t'')"
  by code_simp

subsection \<open>Limit\<close>

lemma length_insort_by: "length (insort_by cmp x xs) = Suc (length xs)"
  by (induction xs) auto

lemma length_sort_by: "length (sort_by cmp xs) = length xs"
  unfolding sort_by_def by (induction xs) (auto simp: length_insort_by)

lemma scanItems_results:
  "fst (scanItems q fw fs so sf M cache acc items) = Inr R \<Longrightarrow>
   \<exists>ys. R = acc @ ys \<and> subseq (map item ys) items \<and> length ys \<le> length items"
proof (induction items arbitrary: acc cache)
  case Nil
  then show ?case by simp
next
  case (Cons it rest)
  show ?case
  proof (cases "truthy it")
    case False
    with Cons.prems have "fst (scanItems q fw fs so sf M cache acc rest) = Inr R" by simp
    from Cons.IH [OF this] obtain ys where "R = acc @ ys" "subseq (map item ys) rest" "length ys \<le> length rest"
      by blast
    then show ?thesis by (auto intro: subseq_Cons')
  next
    case True
    define r where "r = scoreFields q fw fs so it cache ([], 0) sf"
    from Cons.prems True obtain mt where mt: "fst r = Inr mt"
      by (cases "fst r") (auto simp: r_def Let_def)
    define new where "new = (if fst mt \<noteq> [] then [\<lparr>item = it, score = snd mt, matches = fst mt\<rparr>] else [])"
    have new: "(if fst mt \<noteq> [] then acc @ [\<lparr>item = it, score = snd mt, matches = fst mt\<rparr>] else acc) = acc @ new"
      by (simp add: new_def)
    have sub: "subseq (map item new) [it]" and len: "length new \<le> 1"
      by (simp_all add: new_def)
    show ?thesis
    proof (cases "length (acc @ new) \<ge> M")
      case True
      with Cons.prems \<open>truthy it\<close> mt have "R = acc @ new"
        using new by (simp add: r_def [symmetric] Let_def)
      moreover have "subseq (map item new @ []) ([it] @ rest)"
        using sub by (rule list_emb_append_mono) simp
      then have "subseq (map item new) (it # rest)" by simp
      ultimately show ?thesis using len by auto
    next
      case False
      with Cons.prems \<open>truthy it\<close> mt
      have "fst (scanItems q fw fs so sf M (snd r) (acc @ new) rest) = Inr R"
        using new by (simp add: r_def [symmetric] Let_def)
      from Cons.IH [OF this] obtain ys where ys: "R = (acc @ new) @ ys" "subseq (map item ys) rest" "length ys \<le> length rest"
        by blast
      have "subseq (map item (new @ ys)) ([it] @ rest)"
        unfolding map_append using sub ys(2) by (rule list_emb_append_mono)
      with ys len show ?thesis by (intro exI [of _ "new @ ys"]) auto
    qed
  qed
qed


lemma scanItems_break:
  assumes "length acc < m"
    and "m \<le> M \<or> length acc + length items \<le> M"
    and "fst (scanItems q fw fs so sf M cache acc items) = Inr R"
  shows "fst (scanItems q fw fs so sf m cache acc items) = Inr (take m R)"
  using assms
proof (induction items arbitrary: acc cache)
  case Nil
  then show ?case by simp
next
  case (Cons it rest)
  show ?case
  proof (cases "truthy it")
    case False
    with Cons.prems have "fst (scanItems q fw fs so sf M cache acc rest) = Inr R" by simp
    moreover from Cons.prems(2) have "m \<le> M \<or> length acc + length rest \<le> M" by auto
    ultimately have "fst (scanItems q fw fs so sf m cache acc rest) = Inr (take m R)"
      using Cons.prems(1) by (intro Cons.IH)
    with False show ?thesis by simp
  next
    case True
    define r where "r = scoreFields q fw fs so it cache ([], 0) sf"
    from Cons.prems(3) True obtain mt where mt: "fst r = Inr mt"
      by (cases "fst r") (auto simp: r_def Let_def)
    define res where "res = (if fst mt \<noteq> [] then acc @ [\<lparr>item = it, score = snd mt, matches = fst mt\<rparr>] else acc)"
    have len: "length acc \<le> length res" "length res \<le> Suc (length acc)"
      by (simp_all add: res_def)
    have stepM: "fst (scanItems q fw fs so sf M cache acc (it # rest)) =
        (if length res \<ge> M then Inr res else fst (scanItems q fw fs so sf M (snd r) res rest))"
      using True mt by (simp add: r_def [symmetric] res_def [symmetric] Let_def)
    have stepm: "fst (scanItems q fw fs so sf m cache acc (it # rest)) =
        (if length res \<ge> m then Inr res else fst (scanItems q fw fs so sf m (snd r) res rest))"
      using True mt by (simp add: r_def [symmetric] res_def [symmetric] Let_def)
    show ?thesis
    proof (cases "length res \<ge> M")
      case stopM: True
      with stepM Cons.prems(3) have R: "R = res" by simp
      show ?thesis
      proof (cases "length res \<ge> m")
        case True
        with len Cons.prems(1) have "length res = m" by simp
        with True stepm R show ?thesis by simp
      next
        case False
        with stopM Cons.prems(2) len have "rest = []" by (cases rest) auto
        with False stepm R show ?thesis by simp
      qed
    next
      case goM: False
      with stepM Cons.prems(3) have next_M: "fst (scanItems q fw fs so sf M (snd r) res rest) = Inr R"
        by simp
      show ?thesis
      proof (cases "length res \<ge> m")
        case True
        with len Cons.prems(1) have lm: "length res = m" by simp
        from scanItems_results [OF next_M] obtain ys where "R = res @ ys" by blast
        with lm have "take m R = res" by simp
        with True stepm show ?thesis by simp
      next
        case False
        then have 1: "length res < m" by simp
        from Cons.prems(2) len have 2: "m \<le> M \<or> length res + length rest \<le> M" by auto
        from Cons.IH [OF 1 2 next_M] False stepm show ?thesis by simp
      qed
    qed
  qed
qed

lemma search_scan:
  "trim query \<noteq> [] \<Longrightarrow>
   fst (search st data query options) =
     (case searchScan st data query options
             (if orDefault o_limit options \<noteq> 0 then orDefault o_limit options * 3
              else length (snd data)) of
        Inl e \<Rightarrow> Inl e
      | Inr results \<Rightarrow>
          Inr (truncate_results (orDefault o_limit options) (sort_by compareResults results)))"
  by (simp add: search_def searchScan_def Let_def)

lemma orDefault_limit:
  "orDefault o_limit (options\<lparr>o_limit := Some N\<rparr>) = N"
  by (simp add: orDefault_def)

lemma searchScan_limit:
  "searchScan st data query (options\<lparr>o_limit := x\<rparr>) m = searchScan st data query options m"
  by (simp add: searchScan_def orDefault_def)

lemma searchScan_results:
  "searchScan st data query options M = Inr R \<Longrightarrow> subseq (map item R) (snd data)"
  unfolding searchScan_def Let_def by (drule scanItems_results) simp

lemma searchScan_break:
  "0 < m \<Longrightarrow> searchScan st data query options (length (snd data)) = Inr R \<Longrightarrow>
   searchScan st data query options m = Inr (take m R)"
  unfolding searchScan_def Let_def by (rule scanItems_break) simp_all

text \<open>
  What the two revisions do with a limit \<open>N \<ge> 1\<close>, for a query with a non-empty trim.
  \<^verbatim>\<open>src/index.ts\<close> returns the first \<open>N\<close> results of the call with limit 0 (no limit), or
  fails as that call does.  In the optimised revision, when the call with limit 0 returns
  \<open>U\<close>, \<open>U\<close> is the ranking of the matching records \<open>R\<close> taken in collection order, and the
  call with limit \<open>N\<close> returns the first \<open>N\<close> of the ranking of the first \<open>3N\<close> records of
  \<open>R\<close>: at most \<open>N\<close> results, and exactly the first \<open>N\<close> of \<open>U\<close> whenever at most \<open>3N\<close>
  records match.  Both calls start from the same state of the caches.
\<close>

theorem limit_contract:
  assumes "trim query \<noteq> []" and "N \<ge> 1"
  shows "search_v1 data query (options\<lparr>o_limit := Some N\<rparr>)
           = map_sum id (take N) (search_v1 data query (options\<lparr>o_limit := Some 0\<rparr>))
       \<and> (\<forall>U. fst (search st (r, data) query (options\<lparr>o_limit := Some 0\<rparr>)) = Inr U \<longrightarrow>
            (\<exists>R. U = sort_by compareResults R
                \<and> subseq (map item R) data
                \<and> fst (search st (r, data) query (options\<lparr>o_limit := Some N\<rparr>))
                    = Inr (take N (sort_by compareResults (take (3 * N) R)))
                \<and> (length U \<le> 3 * N \<longrightarrow>
                     fst (search st (r, data) query (options\<lparr>o_limit := Some N\<rparr>)) = Inr (take N U))))"
proof
  show "search_v1 data query (options\<lparr>o_limit := Some N\<rparr>)
           = map_sum id (take N) (search_v1 data query (options\<lparr>o_limit := Some 0\<rparr>))"
    using assms by (simp add: search_v1_def Let_def truncate_results_def orDefault_def split: sum.splits)
next
  let ?scan = "searchScan st (r, data) query options"
  have unb: "fst (search st (r, data) query (options\<lparr>o_limit := Some 0\<rparr>)) =
      (case ?scan (length data) of Inl e \<Rightarrow> Inl e | Inr R \<Rightarrow> Inr (sort_by compareResults R))"
    using assms(1) by (simp add: search_scan orDefault_limit searchScan_limit truncate_results_def split: sum.splits)
  have lim: "fst (search st (r, data) query (options\<lparr>o_limit := Some N\<rparr>)) =
      (case ?scan (N * 3) of Inl e \<Rightarrow> Inl e | Inr R \<Rightarrow> Inr (take N (sort_by compareResults R)))"
    using assms by (simp add: search_scan orDefault_limit searchScan_limit truncate_results_def split: sum.splits)
  show "\<forall>U. fst (search st (r, data) query (options\<lparr>o_limit := Some 0\<rparr>)) = Inr U \<longrightarrow>
            (\<exists>R. U = sort_by compareResults R
                \<and> subseq (map item R) data
                \<and> fst (search st (r, data) query (options\<lparr>o_limit := Some N\<rparr>))
                    = Inr (take N (sort_by compareResults (take (3 * N) R)))
                \<and> (length U \<le> 3 * N \<longrightarrow>
                     fst (search st (r, data) query (options\<lparr>o_limit := Some N\<rparr>)) = Inr (take N U)))"
  proof (intro allI impI)
    fix U
    assume "fst (search st (r, data) query (options\<lparr>o_limit := Some 0\<rparr>)) = Inr U"
    with unb obtain R where R: "?scan (length data) = Inr R" and U: "U = sort_by compareResults R"
      by (auto split: sum.splits)
    from searchScan_results [OF R] have sub: "subseq (map item R) data" by simp
    have "?scan (N * 3) = Inr (take (N * 3) R)"
      using assms(2) R by (intro searchScan_break) simp_all
    with lim have L: "fst (search st (r, data) query (options\<lparr>o_limit := Some N\<rparr>))
                    = Inr (take N (sort_by compareResults (take (3 * N) R)))"
      by (simp add: mult.commute)
    moreover have "length U \<le> 3 * N \<longrightarrow>
                     fst (search st (r, data) query (options\<lparr>o_limit := Some N\<rparr>)) = Inr (take N U)"
      using L U by (simp add: length_sort_by)
    ultimately show "\<exists>R. U = sort_by compareResults R
                \<and> subseq (map item R) data
                \<and> fst (search st (r, data) query (options\<lparr>o_limit := Some N\<rparr>))
                    = Inr (take N (sort_by compareResults (take (3 * N) R)))
                \<and> (length U \<le> 3 * N \<longrightarrow>
                     fst (search st (r, data) query (options\<lparr>o_limit := Some N\<rparr>)) = Inr (take N U))"
      using U sub by blast
  qed
qed


theorem limit_contract_witness:
  "trim ''john'' \<noteq> [] \<and> (1 :: nat) \<ge> 1
   \<and> fst (search emptyCaches
            (9, [Obj 1 [(''name'', Str ''John Doe'')], Obj 2 [(''name'', Str ''Jane Smith'')],
                 Obj 3 [(''name'', Str ''Bob Johnson'')]])
            ''john'' (noOptions\<lparr>o_limit := Some 0\<rparr>))
       = Inr [\<lparr>item = Obj 1 [(''name'', Str ''John Doe'')], score = 200,
                matches = [\<lparr>m_field = ''name'', m_value = ''John Doe'', m_score = 200,
                            m_type = ExactStart, m_position = Some 0\<rparr>]\<rparr>,
              \<lparr>item = Obj 3 [(''name'', Str ''Bob Johnson'')], score = 2056 / 11,
                matches = [\<lparr>m_field = ''name'', m_value = ''Bob Johnson'', m_score = 2056 / 11,
                            m_type = ExactContain, m_position = Some 4\<rparr>]\<rparr>]
   \<and> fst (search emptyCaches
            (9, [Obj 1 [(''name'', Str ''John Doe'')], Obj 2 [(''name'', Str ''Jane Smith'')],
                 Obj 3 [(''name'', Str ''Bob Johnson'')]])
            ''john'' (noOptions\<lparr>o_limit := Some 1\<rparr>))
       = Inr [\<lparr>item = Obj 1 [(''name'', Str ''John Doe'')], score = 200,
                matches = [\<lparr>m_field = ''name'', m_value = ''John Doe'', m_score = 200,
                            m_type = ExactStart, m_position = Some 0\<rparr>]\<rparr>]"
proof -
  let ?d = "[Obj 1 [(''name'', Str ''John Doe'')], Obj 2 [(''name'', Str ''Jane Smith'')],
             Obj 3 [(''name'', Str ''Bob Johnson'')]]"
  let ?U = "[\<lparr>item = Obj 1 [(''name'', Str ''John Doe'')], score = 200,
                matches = [\<lparr>m_field = ''name'', m_value = ''John Doe'', m_score = 200,
                            m_type = ExactStart, m_position = Some 0\<rparr>]\<rparr>,
              \<lparr>item = Obj 3 [(''name'', Str ''Bob Johnson'')], score = 2056 / 11,
                matches = [\<lparr>m_field = ''name'', m_value = ''Bob Johnson'', m_score = 2056 / 11,
                            m_type = ExactContain, m_position = Some 4\<rparr>]\<rparr>]"
  have h1: "trim ''john'' \<noteq> []" by code_simp
  have h2: "(1 :: nat) \<ge> 1" by simp
  have e0: "fst (search emptyCaches (9, ?d) ''john'' (noOptions\<lparr>o_limit := Some 0\<rparr>)) = Inr ?U"
    by code_simp
  from limit_contract [OF h1 h2, of ?d noOptions emptyCaches 9] e0
  have "fst (search emptyCaches (9, ?d) ''john'' (noOptions\<lparr>o_limit := Some 1\<rparr>)) = Inr (take 1 ?U)"
    by auto
  with h1 e0 show ?thesis by simp
qed

text \<open>
  C1. In the optimised revision the result with a limit is not always the first \<open>N\<close>
  results of the unbounded call: with limit 1 the scan stops after three matching records
  (\<open>maxResults = limit \<times> 3\<close>), so a fourth record with a higher score is never seen.  For
  the records named \<^verbatim>\<open>xxxa\<close>, \<^verbatim>\<open>xxxa\<close>, \<^verbatim>\<open>xxxa\<close>, \<^verbatim>\<open>xa\<close> and the query \<^verbatim>\<open>"a"\<close> the call
  with limit 1 returns the first record (score 347), the unbounded call ranks the fourth
  one first (score 599).
\<close>

theorem limit_early_termination:
  "fst (search emptyCaches
          (9, [Obj 1 [(''name'', Str ''xxxa'')], Obj 2 [(''name'', Str ''xxxa'')],
               Obj 3 [(''name'', Str ''xxxa'')], Obj 4 [(''name'', Str ''xa'')]])
          ''a'' (noOptions\<lparr>o_limit := Some 1\<rparr>))
   \<noteq> map_sum id (take 1)
       (fst (search emptyCaches
          (9, [Obj 1 [(''name'', Str ''xxxa'')], Obj 2 [(''name'', Str ''xxxa'')],
               Obj 3 [(''name'', Str ''xxxa'')], Obj 4 [(''name'', Str ''xa'')]])
          ''a'' (noOptions\<lparr>o_limit := Some 0\<rparr>)))"
proof -
  have 1: "fst (search emptyCaches
          (9, [Obj 1 [(''name'', Str ''xxxa'')], Obj 2 [(''name'', Str ''xxxa'')],
               Obj 3 [(''name'', Str ''xxxa'')], Obj 4 [(''name'', Str ''xa'')]])
          ''a'' (noOptions\<lparr>o_limit := Some 1\<rparr>))
     = Inr [\<lparr>item = Obj 1 [(''name'', Str ''xxxa'')], score = 347,
              matches = [\<lparr>m_field = ''name'', m_value = ''xxxa'', m_score = 347,
                          m_type = ExactContain, m_position = Some 3\<rparr>]\<rparr>]"
    by code_simp
  have 2: "map_sum id (take 1) (fst (search emptyCaches
          (9, [Obj 1 [(''name'', Str ''xxxa'')], Obj 2 [(''name'', Str ''xxxa'')],
               Obj 3 [(''name'', Str ''xxxa'')], Obj 4 [(''name'', Str ''xa'')]])
          ''a'' (noOptions\<lparr>o_limit := Some 0\<rparr>)))
     = Inr [\<lparr>item = Obj 4 [(''name'', Str ''xa'')], score = 599,
              matches = [\<lparr>m_field = ''name'', m_value = ''xa'', m_score = 599,
                          m_type = ExactContain, m_position = Some 1\<rparr>]\<rparr>]"
    by code_simp
  show ?thesis unfolding 1 2 by simp
qed

subsection \<open>Edit distance\<close>

lemma ed_Nil2 [simp]: "ed xs [] = length xs"
  by (cases xs) auto

lemma ed_sym: "ed a b = ed b a"
  by (induction a b rule: ed.induct) (auto simp: min.commute min.left_commute)

lemma ed_same [simp]: "ed xs xs = 0"
  by (induction xs) auto

lemma ed_Cons2_le: "ed a (y # b) \<le> Suc (ed a b)"
  by (cases a) auto

lemma ed_Cons1_le: "ed (x # a) b \<le> Suc (ed a b)"
  by (cases b) auto

lemma ed_le_Cons2: "ed a b \<le> Suc (ed a (y # b))"
proof (induction a arbitrary: b y)
  case Nil
  then show ?case by simp
next
  case (Cons x a)
  have 1: "ed (x # a) b \<le> Suc (Suc (ed a (y # b)))"
    using Cons.IH [of b y] ed_Cons1_le [of x a b] by linarith
  have 2: "ed (x # a) b \<le> Suc (ed a b)" by (rule ed_Cons1_le)
  show ?case using 1 2 by (auto simp: min_def)
qed

lemma ed_subst_le: "ed a (d # v) \<le> Suc (ed a (c # v))"
proof (induction a)
  case Nil
  then show ?case by simp
next
  case (Cons x a)
  then show ?case by (auto simp: min_def)
qed

lemma ed_Cons_cong:
  assumes "\<And>a. ed a c \<le> Suc (ed a b)"
  shows "ed a (x # c) \<le> Suc (ed a (x # b))"
proof (induction a)
  case Nil
  from assms [of "[]"] show ?case by simp
next
  case (Cons z a)
  from assms [of "z # a"] assms [of a] Cons.IH show ?case
    by (auto simp: min_def)
qed

lemma ed_step: "edit_step b c \<Longrightarrow> ed a c \<le> Suc (ed a b)"
proof -
  have ins: "ed a (u @ c # v) \<le> Suc (ed a (u @ v))" for a u v and c :: 'a
  proof (induction u arbitrary: a)
    case Nil
    show ?case by (simp add: ed_Cons2_le)
  next
    case (Cons x u)
    show ?case using ed_Cons_cong [of "u @ c # v" "u @ v" a x] Cons by simp
  qed
  have del: "ed a (u @ v) \<le> Suc (ed a (u @ c # v))" for a u v and c :: 'a
  proof (induction u arbitrary: a)
    case Nil
    show ?case by (simp add: ed_le_Cons2)
  next
    case (Cons x u)
    show ?case using ed_Cons_cong [of "u @ v" "u @ c # v" a x] Cons by simp
  qed
  have sub: "ed a (u @ d # v) \<le> Suc (ed a (u @ c # v))" for a u v and c d :: 'a
  proof (induction u arbitrary: a)
    case Nil
    show ?case by (simp add: ed_subst_le)
  next
    case (Cons x u)
    show ?case using ed_Cons_cong [of "u @ d # v" "u @ c # v" a x] Cons by simp
  qed
  show "edit_step b c \<Longrightarrow> ed a c \<le> Suc (ed a b)"
    by (induction rule: edit_step.induct) (auto intro: ins del sub)
qed

lemma ed_lower: "edits n a b \<Longrightarrow> ed a b \<le> n"
proof (induction rule: edits.induct)
  case (none a)
  then show ?case by simp
next
  case (more n a b c)
  from ed_step [OF more.hyps(2), of a] more.IH show ?case by simp
qed

lemma edit_step_Cons: "edit_step a b \<Longrightarrow> edit_step (x # a) (x # b)"
proof (induction rule: edit_step.induct)
  case (insertion u v c)
  from edit_step.insertion [of "x # u" v c] show ?case by simp
next
  case (deletion u c v)
  from edit_step.deletion [of "x # u" c v] show ?case by simp
next
  case (substitution c d u v)
  from edit_step.substitution [OF substitution, of "x # u" v] show ?case by simp
qed

lemma edits_Cons: "edits n a b \<Longrightarrow> edits n (x # a) (x # b)"
  by (induction rule: edits.induct) (auto intro: edits.intros edit_step_Cons)

lemma edits_trans: "edits n b c \<Longrightarrow> edits m a b \<Longrightarrow> edits (m + n) a c"
  by (induction rule: edits.induct) (auto intro: edits.intros)

lemma edits_first: "edit_step a b \<Longrightarrow> edits n b c \<Longrightarrow> edits (Suc n) a c"
  using edits_trans [of n b c 1 a] edits.intros by (metis One_nat_def plus_1_eq_Suc)

lemma edits_insert_all: "edits (length ys) [] ys"
proof (induction ys)
  case Nil
  show ?case by (simp add: edits.none)
next
  case (Cons y ys)
  have "edit_step [] [y]" using edit_step.insertion [of "[]" "[]" y] by simp
  moreover have "edits (length ys) [y] (y # ys)" using Cons by (rule edits_Cons)
  ultimately show ?case using edits_first by fastforce
qed

lemma edits_delete_all: "edits (length xs) xs []"
proof (induction xs)
  case Nil
  show ?case by (simp add: edits.none)
next
  case (Cons x xs)
  have "edit_step (x # xs) xs" using edit_step.deletion [of "[]" x xs] by simp
  then show ?case using Cons edits_first by fastforce
qed

lemma ed_upper: "edits (ed a b) a b"
proof (induction a b rule: ed.induct)
  case (1 ys)
  show ?case by (simp add: edits_insert_all)
next
  case (2 x xs)
  from edits_delete_all [of "x # xs"] show ?case by simp
next
  case (3 x xs y ys)
  have del: "edits (ed xs (y # ys) + 1) (x # xs) (y # ys)"
    using edit_step.deletion [of "[]" x xs] "3.IH"(1) edits_first by fastforce
  have ins: "edits (ed (x # xs) ys + 1) (x # xs) (y # ys)"
    using edit_step.insertion [of "[]" ys y] "3.IH"(2) edits.more by fastforce
  have sub: "edits (ed xs ys + (if x = y then 0 else 1)) (x # xs) (y # ys)"
  proof (cases "x = y")
    case True
    with edits_Cons [OF "3.IH"(3), of x] show ?thesis by simp
  next
    case False
    then have "edit_step (x # xs) (y # xs)"
      using edit_step.substitution [of x y "[]" xs] by simp
    with edits_Cons [OF "3.IH"(3), of y] False show ?thesis
      using edits_first by fastforce
  qed
  show ?case using del ins sub by (auto simp: min_def)
qed

lemma edit_step_rev: "edit_step a b \<Longrightarrow> edit_step (rev a) (rev b)"
proof (induction rule: edit_step.induct)
  case (insertion u v c)
  from edit_step.insertion [of "rev v" "rev u" c] show ?case by simp
next
  case (deletion u c v)
  from edit_step.deletion [of "rev v" c "rev u"] show ?case by simp
next
  case (substitution c d u v)
  from edit_step.substitution [OF substitution, of "rev v" "rev u"] show ?case by simp
qed

lemma edits_rev: "edits n a b \<Longrightarrow> edits n (rev a) (rev b)"
  by (induction rule: edits.induct) (auto intro: edits.intros edit_step_rev)

lemma ed_rev: "ed (rev a) (rev b) = ed a b"
proof (rule antisym)
  show "ed (rev a) (rev b) \<le> ed a b"
    using ed_lower [OF edits_rev [OF ed_upper [of a b]]] .
  show "ed a b \<le> ed (rev a) (rev b)"
    using ed_lower [OF edits_rev [OF ed_upper [of "rev a" "rev b"]]] by simp
qed

lemma foldl_upt_invariant:
  assumes "P a x"
    and "\<And>i y. a \<le> i \<Longrightarrow> i < b \<Longrightarrow> P i y \<Longrightarrow> P (Suc i) (f y i)"
    and "a \<le> b"
  shows "P b (foldl f x [a..<b])"
  using assms(3,2)
proof (induction b)
  case 0
  with assms(1) show ?case by simp
next
  case (Suc b)
  show ?case
  proof (cases "a = Suc b")
    case True
    with assms(1) show ?thesis by simp
  next
    case False
    with Suc.prems(1) have ab: "a \<le> b" by simp
    have "P b (foldl f x [a..<b])"
      using ab by (rule Suc.IH) (simp add: Suc.prems(2))
    then have "P (Suc b) (f (foldl f x [a..<b]) b)"
      using ab by (intro Suc.prems(2)) simp_all
    with ab show ?thesis by simp
  qed
qed

lemma lev_table_row0: "j \<le> length str1 \<Longrightarrow> lev_table str1 str2 0 j = j"
  by (simp add: lev_table_def)

lemma lev_table_col0: "i \<le> length str2 \<Longrightarrow> lev_table str1 str2 i 0 = i"
  by (simp add: lev_table_def)

lemma lev_table_rec:
  assumes "0 < i" "i \<le> length str2" "0 < j" "j \<le> length str1"
  shows "lev_table str1 str2 i j =
           min (lev_table str1 str2 (i - 1) j + 1)
               (min (lev_table str1 str2 i (j - 1) + 1)
                    (lev_table str1 str2 (i - 1) (j - 1)
                       + (if str1 ! (j - 1) = str2 ! (i - 1) then 0 else 1)))"
proof -
  from assms obtain i' j' where i: "i = Suc i'" "i' < length str2" and j: "j = Suc j'" "j' < length str1"
    by (cases i; cases j) auto
  have 1: "rev (take j str1) = str1 ! j' # rev (take j' str1)"
    using j by (simp add: take_Suc_conv_app_nth)
  have 2: "rev (take i str2) = str2 ! i' # rev (take i' str2)"
    using i by (simp add: take_Suc_conv_app_nth)
  show ?thesis
    unfolding lev_table_def 1 2 ed.simps
    by (simp add: i j 1 [unfolded j(1)] 2 [unfolded i(1)] min.left_commute)
qed

lemma lev_table_final: "lev_table str1 str2 (length str2) (length str1) = ed str1 str2"
  by (simp add: lev_table_def ed_rev)

lemma init_row:
  "foldl (\<lambda>row i. row[i := i]) (replicate (n + 1) 0) [0..<n + 1] = [0..<n + 1]"
proof -
  define P where "P k row \<longleftrightarrow> length row = n + 1 \<and> (\<forall>b<k. row ! b = b)" for k and row :: "nat list"
  have "P (n + 1) (foldl (\<lambda>row i. row[i := i]) (replicate (n + 1) 0) [0..<n + 1])"
  proof (rule foldl_upt_invariant)
    show "P 0 (replicate (n + 1) 0)" by (simp add: P_def)
    show "P (Suc i) (y[i := i])" if "i < n + 1" "P i y" for i y
      using that by (auto simp: P_def nth_list_update less_Suc_eq)
  qed simp
  then show ?thesis by (auto simp: P_def list_eq_iff_nth_eq simp del: upt_Suc)
qed

lemma row_fill:
  assumes i: "0 < i" "i \<le> length str2"
    and prev: "prevRow = map (lev_table str1 str2 (i - 1)) [0..<length str1 + 1]"
    and curr: "length currRow = length str1 + 1"
  shows "foldl (row_cell str1 str2 i prevRow) (currRow[0 := i]) [1..<length str1 + 1]
         = map (lev_table str1 str2 i) [0..<length str1 + 1]"
proof -
  let ?n = "length str1"
  define P where "P j row \<longleftrightarrow> length row = ?n + 1 \<and> (\<forall>k<j. row ! k = lev_table str1 str2 i k)"
    for j and row :: "nat list"
  have "P (?n + 1) (foldl (row_cell str1 str2 i prevRow) (currRow[0 := i]) [1..<?n + 1])"
  proof (rule foldl_upt_invariant)
    show "P 1 (currRow[0 := i])"
      using curr i by (simp add: P_def lev_table_col0)
  next
    fix j row
    assume j: "1 \<le> j" "j < ?n + 1" and P: "P j row"
    let ?v = "min (prevRow ! j + 1)
                  (min (row ! (j - 1) + 1)
                       (prevRow ! (j - 1) + (if str1 ! (j - 1) = str2 ! (i - 1) then 0 else 1)))"
    have cell: "row_cell str1 str2 i prevRow row j = row[j := ?v]"
      by (simp add: row_cell_def Let_def)
    have p1: "prevRow ! j = lev_table str1 str2 (i - 1) j"
      and p2: "prevRow ! (j - 1) = lev_table str1 str2 (i - 1) (j - 1)"
      using j unfolding prev by (simp_all add: nth_map_upt del: upt_Suc)
    have p3: "row ! (j - 1) = lev_table str1 str2 i (j - 1)"
      using P j by (simp add: P_def)
    have v: "?v = lev_table str1 str2 i j"
      unfolding p1 p2 p3 by (rule lev_table_rec [symmetric]) (use i j in simp_all)
    show "P (Suc j) (row_cell str1 str2 i prevRow row j)"
      unfolding cell v using P j by (auto simp: P_def nth_list_update less_Suc_eq)
  qed simp
  then have len: "length (foldl (row_cell str1 str2 i prevRow) (currRow[0 := i]) [1..<?n + 1]) = ?n + 1"
    and nth: "\<And>k. k < ?n + 1 \<Longrightarrow>
          foldl (row_cell str1 str2 i prevRow) (currRow[0 := i]) [1..<?n + 1] ! k
            = lev_table str1 str2 i k"
    by (simp_all add: P_def)
  show ?thesis
  proof (rule nth_equalityI)
    show "length (foldl (row_cell str1 str2 i prevRow) (currRow[0 := i]) [1..<?n + 1])
          = length (map (lev_table str1 str2 i) [0..<?n + 1])"
      using len by simp
  next
    fix k
    assume "k < length (foldl (row_cell str1 str2 i prevRow) (currRow[0 := i]) [1..<?n + 1])"
    with len have k: "k < ?n + 1" by simp
    then have "map (lev_table str1 str2 i) [0..<?n + 1] ! k = lev_table str1 str2 i k"
      using nth_map_upt [of k "?n + 1" 0 "lev_table str1 str2 i"] by simp
    with nth [OF k]
    show "foldl (row_cell str1 str2 i prevRow) (currRow[0 := i]) [1..<?n + 1] ! k
          = map (lev_table str1 str2 i) [0..<?n + 1] ! k"
      by simp
  qed
qed

lemma row_step_table:
  assumes "0 < i" "i \<le> length str2"
    and "fst rows = map (lev_table str1 str2 (i - 1)) [0..<length str1 + 1]"
    and "length (snd rows) = length str1 + 1"
  shows "fst (row_step str1 str2 rows i) = map (lev_table str1 str2 i) [0..<length str1 + 1]"
    and "length (snd (row_step str1 str2 rows i)) = length str1 + 1"
  using row_fill [OF assms] assms(3) by (simp_all add: row_step_def Let_def del: upt_Suc)

lemma rows_table:
  assumes "length currRow = length str1 + 1"
  shows "fst (foldl (row_step str1 str2) ([0..<length str1 + 1], currRow) [1..<length str2 + 1])
         = map (lev_table str1 str2 (length str2)) [0..<length str1 + 1]"
proof -
  let ?n = "length str1"
  define P where "P i rows \<longleftrightarrow> fst rows = map (lev_table str1 str2 (i - 1)) [0..<?n + 1]
                     \<and> length (snd rows) = ?n + 1" for i and rows :: "nat list \<times> nat list"
  have "P (length str2 + 1) (foldl (row_step str1 str2) ([0..<?n + 1], currRow) [1..<length str2 + 1])"
  proof (rule foldl_upt_invariant)
    show "P 1 ([0..<?n + 1], currRow)"
      using assms by (auto simp: P_def list_eq_iff_nth_eq nth_map_upt lev_table_row0 simp del: upt_Suc)
  next
    fix i rows
    assume "1 \<le> i" "i < length str2 + 1" "P i rows"
    then show "P (Suc i) (row_step str1 str2 rows i)"
      using row_step_table [of i str2 rows str1] by (simp add: P_def)
  qed simp
  then show ?thesis by (simp add: P_def)
qed

lemma two_row_table:
  "fst (foldl (row_step str1 str2)
         (foldl (\<lambda>row i. row[i := i]) (replicate (length str1 + 1) 0) [0..<length str1 + 1],
          replicate (length str1 + 1) 0)
         [1..<length str2 + 1]) ! length str1
   = ed str1 str2"
proof -
  have "fst (foldl (row_step str1 str2) ([0..<length str1 + 1], replicate (length str1 + 1) 0)
          [1..<length str2 + 1])
        = map (lev_table str1 str2 (length str2)) [0..<length str1 + 1]"
    by (rule rows_table) simp
  then show ?thesis
    unfolding init_row by (simp add: lev_table_final nth_map_upt del: upt_Suc)
qed

lemma levenshteinDistance_ed: "levenshteinDistance s1 s2 = ed s1 s2"
proof (cases "length s1 > length s2")
  case True
  have "levenshteinDistance s1 s2 = ed s2 s1"
    unfolding levenshteinDistance_def Let_def if_P [OF True] by (rule two_row_table)
  then show ?thesis by (simp add: ed_sym)
next
  case False
  show ?thesis
    unfolding levenshteinDistance_def Let_def if_not_P [OF False] by (rule two_row_table)
qed

lemma matrix_nth_update:
  "a < length m \<Longrightarrow> b < length (m ! a) \<Longrightarrow>
   m[i := (m ! i)[j := v]] ! a ! b = (if a = i \<and> b = j then v else m ! a ! b)"
  by (cases "a = i") (simp_all add: nth_list_update)

lemma matrix_ok_update:
  "matrix_ok str1 str2 m \<Longrightarrow> matrix_ok str1 str2 (m[i := (m ! i)[j := v]])"
proof -
  assume ok: "matrix_ok str1 str2 m"
  have "length (m[i := (m ! i)[j := v]] ! a) = length (m ! a)" if "a < length m" for a
    using that by (cases "a = i") (simp_all add: nth_list_update)
  with ok show ?thesis by (simp add: matrix_ok_def)
qed

lemma matrix_init:
  fixes str1 str2 :: "'a list"
  defines "m2 \<equiv> foldl (\<lambda>m j. m[j := (m ! j)[0 := j]])
                   (foldl (\<lambda>m i. m[0 := (m ! 0)[i := i]])
                      (replicate (length str2 + 1) (replicate (length str1 + 1) 0))
                      [0..<length str1 + 1])
                   [0..<length str2 + 1]"
  shows "matrix_ok str1 str2 m2 \<and> matrix_known str1 str2 m2 1 1"
proof -
  let ?C = "length str1" and ?R = "length str2"
  define P1 where "P1 k m \<longleftrightarrow> matrix_ok str1 str2 m \<and> (\<forall>b<k. m ! 0 ! b = b)"
    for k and m :: "nat list list"
  define P2 where "P2 k m \<longleftrightarrow> matrix_ok str1 str2 m \<and> (\<forall>b<?C + 1. m ! 0 ! b = b)
                      \<and> (\<forall>a<k. m ! a ! 0 = a)"
    for k and m :: "nat list list"
  let ?m1 = "foldl (\<lambda>m i. m[0 := (m ! 0)[i := i]])
                      (replicate (?R + 1) (replicate (?C + 1) 0)) [0..<?C + 1]"
  have "P1 (?C + 1) ?m1"
  proof (rule foldl_upt_invariant)
    show "P1 0 (replicate (?R + 1) (replicate (?C + 1) 0))"
      by (simp add: P1_def matrix_ok_def del: replicate_Suc)
  next
    fix i and m :: "nat list list"
    assume i: "i < ?C + 1" and P: "P1 i m"
    from P have ok: "matrix_ok str1 str2 m" by (simp add: P1_def)
    then have l: "0 < length m" "\<And>b. b < ?C + 1 \<Longrightarrow> b < length (m ! 0)"
      by (simp_all add: matrix_ok_def)
    show "P1 (Suc i) (m[0 := (m ! 0)[i := i]])"
      unfolding P1_def
    proof (intro conjI allI impI)
      show "matrix_ok str1 str2 (m[0 := (m ! 0)[i := i]])" using ok by (rule matrix_ok_update)
      fix b assume "b < Suc i"
      with i have "b < ?C + 1" by simp
      with l have "m[0 := (m ! 0)[i := i]] ! 0 ! b = (if 0 = (0::nat) \<and> b = i then i else m ! 0 ! b)"
        by (intro matrix_nth_update) simp_all
      with P \<open>b < Suc i\<close> show "m[0 := (m ! 0)[i := i]] ! 0 ! b = b"
        by (auto simp: P1_def less_Suc_eq)
    qed
  qed simp
  then have "P2 0 ?m1" by (simp add: P1_def P2_def)
  then have "P2 (?R + 1) (foldl (\<lambda>m j. m[j := (m ! j)[0 := j]]) ?m1 [0..<?R + 1])"
  proof (rule foldl_upt_invariant)
    fix j and m :: "nat list list"
    assume j: "j < ?R + 1" and P: "P2 j m"
    from P have ok: "matrix_ok str1 str2 m" by (simp add: P2_def)
    then have l: "\<And>a. a < ?R + 1 \<Longrightarrow> a < length m"
      "\<And>a b. a < ?R + 1 \<Longrightarrow> b < ?C + 1 \<Longrightarrow> b < length (m ! a)"
      by (simp_all add: matrix_ok_def)
    have upd: "m[j := (m ! j)[0 := j]] ! a ! b = (if a = j \<and> b = 0 then j else m ! a ! b)"
      if "a < ?R + 1" "b < ?C + 1" for a b
      using that l by (intro matrix_nth_update) simp_all
    show "P2 (Suc j) (m[j := (m ! j)[0 := j]])"
      unfolding P2_def
    proof (intro conjI allI impI)
      show "matrix_ok str1 str2 (m[j := (m ! j)[0 := j]])" using ok by (rule matrix_ok_update)
    next
      fix b assume b: "b < ?C + 1"
      with upd [of 0 b] P show "m[j := (m ! j)[0 := j]] ! 0 ! b = b"
        by (auto simp: P2_def)
    next
      fix a assume a: "a < Suc j"
      with j have "a < ?R + 1" by simp
      with upd [of a 0] P a show "m[j := (m ! j)[0 := j]] ! a ! 0 = a"
        by (auto simp: P2_def less_Suc_eq)
    qed
  qed simp
  then have P2: "P2 (?R + 1) m2" by (simp add: m2_def)
  then have "matrix_ok str1 str2 m2" by (simp add: P2_def)
  moreover have "matrix_known str1 str2 m2 1 1"
    unfolding matrix_known_def
  proof (intro allI impI)
    fix a b
    assume a: "a < ?R + 1" and b: "b < ?C + 1" and "a = 0 \<or> b = 0 \<or> a < 1 \<or> a = 1 \<and> b < 1"
    then have "a = 0 \<or> b = 0" by auto
    then show "m2 ! a ! b = lev_table str1 str2 a b"
    proof
      assume "a = 0"
      with P2 b show ?thesis by (simp add: P2_def lev_table_row0)
    next
      assume "b = 0"
      with P2 a show ?thesis by (simp add: P2_def lev_table_col0)
    qed
  qed
  ultimately show ?thesis by simp
qed

lemma lev_cell_known:
  assumes i: "0 < i" "i < length str2 + 1" and j: "0 < j" "j < length str1 + 1"
    and ok: "matrix_ok str1 str2 m" and known: "matrix_known str1 str2 m i j"
  shows "matrix_ok str1 str2 (lev_cell str1 str2 i m j)
       \<and> matrix_known str1 str2 (lev_cell str1 str2 i m j) i (Suc j)"
proof -
  let ?v = "min (m ! (i - 1) ! j + 1)
               (min (m ! i ! (j - 1) + 1)
                    (m ! (i - 1) ! (j - 1) + (if str1 ! (j - 1) = str2 ! (i - 1) then 0 else 1)))"
  have cell: "lev_cell str1 str2 i m j = m[i := (m ! i)[j := ?v]]"
    by (simp add: lev_cell_def Let_def)
  have k1: "m ! (i - 1) ! j = lev_table str1 str2 (i - 1) j"
    using known [unfolded matrix_known_def, rule_format, of "i - 1" j] i j by simp
  have k2: "m ! i ! (j - 1) = lev_table str1 str2 i (j - 1)"
    using known [unfolded matrix_known_def, rule_format, of i "j - 1"] i j by simp
  have k3: "m ! (i - 1) ! (j - 1) = lev_table str1 str2 (i - 1) (j - 1)"
    using known [unfolded matrix_known_def, rule_format, of "i - 1" "j - 1"] i j by simp
  have v: "?v = lev_table str1 str2 i j"
    unfolding k1 k2 k3 by (rule lev_table_rec [symmetric]) (use i j in simp_all)
  have upd: "m[i := (m ! i)[j := ?v]] ! a ! b = (if a = i \<and> b = j then ?v else m ! a ! b)"
    if "a < length str2 + 1" "b < length str1 + 1" for a b
    using that ok by (intro matrix_nth_update) (simp_all add: matrix_ok_def)
  have "matrix_known str1 str2 (m[i := (m ! i)[j := ?v]]) i (Suc j)"
    unfolding matrix_known_def
  proof (intro allI impI)
    fix a b
    assume a: "a < length str2 + 1" and b: "b < length str1 + 1"
      and c: "a = 0 \<or> b = 0 \<or> a < i \<or> a = i \<and> b < Suc j"
    show "m[i := (m ! i)[j := ?v]] ! a ! b = lev_table str1 str2 a b"
    proof (cases "a = i \<and> b = j")
      case True
      have "m[i := (m ! i)[j := ?v]] ! a ! b = lev_table str1 str2 i j"
        unfolding upd [OF a b] if_P [OF True] by (rule v)
      with True show ?thesis by (simp only:)
    next
      case False
      with c have "a = 0 \<or> b = 0 \<or> a < i \<or> a = i \<and> b < j" by auto
      with known [unfolded matrix_known_def, rule_format, of a b] a b
      have "m ! a ! b = lev_table str1 str2 a b"
        by simp
      with upd [OF a b] False show ?thesis by simp
    qed
  qed
  with ok show ?thesis unfolding cell by (simp add: matrix_ok_update)
qed

lemma lev_fill_row_known:
  assumes i: "0 < i" "i < length str2 + 1"
    and ok: "matrix_ok str1 str2 m" and known: "matrix_known str1 str2 m i 1"
  shows "matrix_ok str1 str2 (lev_fill_row str1 str2 m i)
       \<and> matrix_known str1 str2 (lev_fill_row str1 str2 m i) (Suc i) 1"
proof -
  define P where "P j m \<longleftrightarrow> matrix_ok str1 str2 m \<and> matrix_known str1 str2 m i j"
    for j and m :: "nat list list"
  have "P (length str1 + 1) (foldl (lev_cell str1 str2 i) m [1..<length str1 + 1])"
  proof (rule foldl_upt_invariant)
    show "P 1 m" using ok known by (simp add: P_def)
  next
    fix j and y :: "nat list list"
    assume "1 \<le> j" "j < length str1 + 1" "P j y"
    then show "P (Suc j) (lev_cell str1 str2 i y j)"
      using lev_cell_known [of i str2 j str1 y] i by (simp add: P_def)
  qed simp
  then have ok': "matrix_ok str1 str2 (lev_fill_row str1 str2 m i)"
    and kn: "matrix_known str1 str2 (lev_fill_row str1 str2 m i) i (length str1 + 1)"
    by (simp_all add: P_def lev_fill_row_def)
  have "matrix_known str1 str2 (lev_fill_row str1 str2 m i) (Suc i) 1"
    unfolding matrix_known_def
  proof (intro allI impI)
    fix a b
    assume a: "a < length str2 + 1" and b: "b < length str1 + 1"
      and c: "a = 0 \<or> b = 0 \<or> a < Suc i \<or> a = Suc i \<and> b < 1"
    then have "a = 0 \<or> b = 0 \<or> a < i \<or> a = i \<and> b < length str1 + 1" by auto
    with kn [unfolded matrix_known_def, rule_format, of a b] a b
    show "lev_fill_row str1 str2 m i ! a ! b = lev_table str1 str2 a b"
      by simp
  qed
  with ok' show ?thesis by simp
qed

lemma levenshteinDistance_v1_ed: "levenshteinDistance_v1 str1 str2 = ed str1 str2"
proof -
  let ?m2 = "foldl (\<lambda>m j. m[j := (m ! j)[0 := j]])
                   (foldl (\<lambda>m i. m[0 := (m ! 0)[i := i]])
                      (replicate (length str2 + 1) (replicate (length str1 + 1) 0))
                      [0..<length str1 + 1])
                   [0..<length str2 + 1]"
  define P where "P i m \<longleftrightarrow> matrix_ok str1 str2 m \<and> matrix_known str1 str2 m i 1"
    for i and m :: "nat list list"
  have "P (length str2 + 1) (foldl (lev_fill_row str1 str2) ?m2 [1..<length str2 + 1])"
  proof (rule foldl_upt_invariant)
    show "P 1 ?m2" using matrix_init [of str1 str2] by (simp add: P_def)
  next
    fix i and y :: "nat list list"
    assume "1 \<le> i" "i < length str2 + 1" "P i y"
    then show "P (Suc i) (lev_fill_row str1 str2 y i)"
      using lev_fill_row_known [of i str2 str1 y] by (simp add: P_def)
  qed simp
  then have "matrix_known str1 str2 (foldl (lev_fill_row str1 str2) ?m2 [1..<length str2 + 1])
               (length str2 + 1) 1"
    by (simp add: P_def)
  then have "foldl (lev_fill_row str1 str2) ?m2 [1..<length str2 + 1] ! length str2 ! length str1
             = lev_table str1 str2 (length str2) (length str1)"
    unfolding matrix_known_def by simp
  then show ?thesis
    unfolding levenshteinDistance_v1_def Let_def lev_table_final .
qed

lemma ed_Least: "ed a b = (LEAST n. edits n a b)"
  by (rule Least_equality [symmetric]) (auto intro: ed_upper ed_lower)

text \<open>
  C5. For all strings \<open>a\<close> and \<open>b\<close>, \<open>levenshteinDistance a b\<close> is the least number of
  single-character insertions, deletions and substitutions that turn \<open>a\<close> into \<open>b\<close>, for
  the two-row implementation and for the full-matrix one; when one string is empty the
  result is the length of the other.
\<close>

theorem levenshtein_minimal:
  "levenshteinDistance a b = (LEAST n. edits n a b)
   \<and> levenshteinDistance_v1 a b = (LEAST n. edits n a b)
   \<and> edits (levenshteinDistance a b) a b
   \<and> (\<forall>n. edits n a b \<longrightarrow> levenshteinDistance a b \<le> n)
   \<and> levenshteinDistance [] b = length b \<and> levenshteinDistance a [] = length a
   \<and> levenshteinDistance_v1 [] b = length b \<and> levenshteinDistance_v1 a [] = length a"
proof (intro conjI allI impI)
  show "levenshteinDistance a b = (LEAST n. edits n a b)"
    unfolding levenshteinDistance_ed by (rule ed_Least)
  show "levenshteinDistance_v1 a b = (LEAST n. edits n a b)"
    unfolding levenshteinDistance_v1_ed by (rule ed_Least)
  show "edits (levenshteinDistance a b) a b"
    unfolding levenshteinDistance_ed by (rule ed_upper)
  show "levenshteinDistance a b \<le> n" if "edits n a b" for n
    unfolding levenshteinDistance_ed using that by (rule ed_lower)
  show "levenshteinDistance [] b = length b" "levenshteinDistance a [] = length a"
    "levenshteinDistance_v1 [] b = length b" "levenshteinDistance_v1 a [] = length a"
    by (simp_all add: levenshteinDistance_ed levenshteinDistance_v1_ed)
qed

theorem levenshtein_minimal_witness:
  "edits 1 ''ab'' ''b''
   \<and> levenshteinDistance ''ab'' ''b'' \<le> 1
   \<and> edits (levenshteinDistance ''ab'' ''b'') ''ab'' ''b''
   \<and> levenshteinDistance_v1 ''ab'' ''b'' = levenshteinDistance ''ab'' ''b''"
proof -
  have "edit_step ''ab'' ''b''"
    using edit_step.deletion [of "[]" "CHR ''a''" "''b''"] by simp
  with edits.none [of "''ab''"] have h: "edits 1 ''ab'' ''b''"
    using edits.more by fastforce
  note t = levenshtein_minimal [of "''ab''" "''b''"]
  from t have 1: "\<forall>n. edits n ''ab'' ''b'' \<longrightarrow> levenshteinDistance ''ab'' ''b'' \<le> n" by blast
  from t have 2: "edits (levenshteinDistance ''ab'' ''b'') ''ab'' ''b''" by blast
  from t have 3: "levenshteinDistance_v1 ''ab'' ''b'' = levenshteinDistance ''ab'' ''b''"
    by (simp only:)
  from h 1 2 3 show ?thesis by blast
qed

subsection \<open>Fuzzy matching\<close>

lemma pieces_ne [simp]: "pieces s \<noteq> []"
  by (induction s) (auto split: list.splits)

lemma pieces_snoc:
  "pieces (u @ [c]) =
     (if isWhitespace c then pieces u @ [[]]
      else butlast (pieces u) @ [last (pieces u) @ [c]])"
proof (induction u)
  case Nil
  show ?case by simp
next
  case (Cons d u)
  obtain p ps where p: "pieces u = p # ps" by (cases "pieces u") auto
  show ?case
  proof (cases "isWhitespace c")
    case True
    with Cons p show ?thesis by simp
  next
    case False
    with Cons p show ?thesis
      by (cases ps) (auto split: list.splits)
  qed
qed

lemma last_pieces_suffix: "suffix (last (pieces u)) u"
proof (induction u rule: rev_induct)
  case Nil
  show ?case by simp
next
  case (snoc c u)
  then show ?case by (auto simp: pieces_snoc suffix_def)
qed

lemma last_pieces_drop:
  "drop (length u - length (last (pieces u))) u = last (pieces u)"
proof -
  from last_pieces_suffix [of u] obtain x where x: "u = x @ last (pieces u)"
    by (auto simp: suffix_def)
  have "drop (length u - length (last (pieces u))) (x @ last (pieces u)) = last (pieces u)"
    by (subst x) simp
  with x show ?thesis by simp
qed

lemma pieces_dropWhile:
  "filter (\<lambda>w. w \<noteq> []) (pieces (dropWhile isWhitespace x)) = filter (\<lambda>w. w \<noteq> []) (pieces x)"
  by (induction x) auto

lemma pieces_no_whitespace:
  "\<forall>c\<in>set w. \<not> isWhitespace c \<Longrightarrow> pieces (w @ r) = (w @ hd (pieces r)) # tl (pieces r)"
proof (induction w)
  case Nil
  show ?case by simp
next
  case (Cons c w)
  then show ?case by simp
qed

lemma splitWhitespace_words:
  "filter (\<lambda>w. w \<noteq> []) (splitWhitespace s) = words_of s"
proof (induction s rule: splitWhitespace.induct)
  case (1 s)
  let ?w = "takeWhile (\<lambda>c. \<not> isWhitespace c) s" and ?r = "dropWhile (\<lambda>c. \<not> isWhitespace c) s"
  have s: "s = ?w @ ?r" by simp
  have w: "\<forall>c\<in>set ?w. \<not> isWhitespace c" by (auto dest: set_takeWhileD)
  show ?case
  proof (cases "?r = []")
    case True
    then have "pieces s = [?w]"
      using pieces_no_whitespace [OF w, of "[]"] s by (metis append_Nil2 list.sel(1,3) pieces.simps(1))
    with True show ?thesis
      by (subst splitWhitespace.simps) (simp add: words_of_def Let_def)
  next
    case False
    then obtain c r' where r: "?r = c # r'" by (cases ?r) auto
    have c: "isWhitespace c"
      using hd_dropWhile [of "\<lambda>c. \<not> isWhitespace c" s] False r by simp
    have "pieces (?w @ ?r) = (?w @ hd (pieces ?r)) # tl (pieces ?r)"
      using w by (rule pieces_no_whitespace)
    then have ps: "pieces s = ?w # pieces r'"
      using c unfolding r [symmetric] s [symmetric] by (simp add: r)
    have "filter (\<lambda>w. w \<noteq> []) (splitWhitespace (dropWhile isWhitespace ?r))
          = words_of (dropWhile isWhitespace ?r)"
      using False by (intro "1.IH") simp_all
    also have "\<dots> = filter (\<lambda>w. w \<noteq> []) (pieces r')"
      unfolding words_of_def pieces_dropWhile by (simp add: r c)
    finally have ih: "filter (\<lambda>w. w \<noteq> []) (splitWhitespace (dropWhile isWhitespace ?r))
          = filter (\<lambda>w. w \<noteq> []) (pieces r')" .
    have "splitWhitespace s = ?w # splitWhitespace (dropWhile isWhitespace ?r)"
      using False by (subst splitWhitespace.simps) (auto simp: Let_def)
    with ih ps show ?thesis by (simp add: words_of_def)
  qed
qed

lemma slice_last_piece:
  assumes "i \<le> length s" and "k + length (last (pieces (take i s))) = i"
  shows "slice s k i = last (pieces (take i s))"
proof -
  have k: "k = length (take i s) - length (last (pieces (take i s)))"
    using assms by simp
  have "slice s k i = drop k (take i s)"
    by (simp add: slice_def drop_take)
  also have "\<dots> = last (pieces (take i s))"
    by (subst k) (rule last_pieces_drop)
  finally show ?thesis .
qed

lemma fuzzy_scan_pieces:
  "fst (foldl (fuzzyScan text s q w options) (None, 0) [0..<length s + 1])
   = foldl (\<lambda>b word. if length word \<ge> 3
                      then fuzzyCandidate levenshteinDistance text q w options b word else b)
       None (pieces s)"
proof -
  let ?step = "\<lambda>b word. if length word \<ge> 3
                      then fuzzyCandidate levenshteinDistance text q w options b word else b"
  let ?n = "length s"
  define P where "P i st \<longleftrightarrow>
      (if i \<le> ?n
       then fst st = foldl ?step None (butlast (pieces (take i s)))
            \<and> snd st + length (last (pieces (take i s))) = i
       else fst st = foldl ?step None (pieces s))"
    for i and st :: "SearchMatch option \<times> nat"
  have "P (?n + 1) (foldl (fuzzyScan text s q w options) (None, 0) [0..<?n + 1])"
  proof (rule foldl_upt_invariant)
    show "P 0 (None, 0)" by (simp add: P_def)
  next
    fix i and st :: "SearchMatch option \<times> nat"
    assume i: "i < ?n + 1" and P: "P i st"
    then have b: "fst st = foldl ?step None (butlast (pieces (take i s)))"
      and k: "snd st + length (last (pieces (take i s))) = i"
      by (simp_all add: P_def)
    let ?ps = "pieces (take i s)"
    have sl: "slice s (snd st) i = last ?ps"
      using i k by (intro slice_last_piece) simp_all
    have len: "(int i - int (snd st) \<ge> 3) = (length (last ?ps) \<ge> 3)"
      using k by linarith
    have all: "foldl ?step None ?ps = ?step (fst st) (last ?ps)"
    proof -
      have "?ps = butlast ?ps @ [last ?ps]" by simp
      then have "foldl ?step None ?ps = foldl ?step None (butlast ?ps @ [last ?ps])" by simp
      then show ?thesis unfolding foldl_append b by simp
    qed
    have bnd: "fuzzyScan text s q w options st i = (?step (fst st) (last ?ps), i + 1)"
      if "i = ?n \<or> isWhitespace (s ! i)"
      unfolding fuzzyScan_def if_P [OF that] len sl by (rule refl)
    show "P (Suc i) (fuzzyScan text s q w options st i)"
    proof (cases "i = ?n")
      case True
      with bnd have "fst (fuzzyScan text s q w options st i) = ?step (fst st) (last ?ps)"
        by simp
      with all True show ?thesis by (simp add: P_def)
    next
      case False
      with i have lt: "i < ?n" by simp
      then have tk: "take (Suc i) s = take i s @ [s ! i]"
        by (rule take_Suc_conv_app_nth)
      show ?thesis
      proof (cases "isWhitespace (s ! i)")
        case True
        with bnd have "fst (fuzzyScan text s q w options st i) = ?step (fst st) (last ?ps)"
          and "snd (fuzzyScan text s q w options st i) = Suc i"
          by simp_all
        moreover have "pieces (take (Suc i) s) = ?ps @ [[]]"
          unfolding tk pieces_snoc using True by simp
        ultimately show ?thesis using all lt by (simp add: P_def)
      next
        case ws: False
        with False have "fuzzyScan text s q w options st i = st"
          by (simp add: fuzzyScan_def)
        moreover have "pieces (take (Suc i) s) = butlast ?ps @ [last ?ps @ [s ! i]]"
          unfolding tk pieces_snoc using ws by simp
        ultimately show ?thesis using b k lt by (simp add: P_def)
      qed
    qed
  qed simp
  then show ?thesis by (simp add: P_def)
qed

lemma ed_le_max: "ed a b \<le> max (length a) (length b)"
  by (induction a b rule: ed.induct) (auto simp: min_def max_def)

lemma similarity_bounds:
  "0 \<le> similarity word q \<and> similarity word q \<le> 1"
proof (cases "max (length word) (length q) = 0")
  case True
  then show ?thesis by (simp add: similarity_def)
next
  case False
  let ?n = "of_nat (max (length word) (length q)) :: rat" and ?d = "of_nat (ed word q) :: rat"
  from False have "0 < max (length word) (length q)" by (simp only: neq0_conv)
  then have pos: "0 < ?n" by (simp only: of_nat_0_less_iff)
  have "?d \<le> ?n"
    using ed_le_max [of word q] by (simp only: of_nat_le_iff)
  then have 1: "0 \<le> ?n - ?d" by simp
  have 2: "?n - ?d \<le> ?n" by simp
  from 1 pos have "0 \<le> (?n - ?d) / ?n" by (intro divide_nonneg_pos)
  moreover from 2 pos have "(?n - ?d) / ?n \<le> 1" by (simp only: divide_le_eq_1_pos)
  ultimately show ?thesis unfolding similarity_def by simp
qed

lemma bestScore_None: "bestScore acc cs = None \<longleftrightarrow> acc = None \<and> cs = []"
  by (induction cs arbitrary: acc) (auto split: option.splits)

lemma bestScore_Some:
  "bestScore acc cs = Some s \<Longrightarrow>
   (acc = Some s \<or> s \<in> set cs) \<and> (\<forall>c\<in>set cs. c \<le> s) \<and> (\<forall>a. acc = Some a \<longrightarrow> a \<le> s)"
proof (induction cs arbitrary: acc)
  case Nil
  then show ?case by simp
next
  case (Cons c cs)
  from Cons.IH [OF Cons.prems [simplified]] show ?case
    by (cases acc) (auto split: if_splits)
qed

lemma fuzzyCandidate_score:
  assumes "lev word q = ed word q"
  shows "fuzzyCandidate lev text q w options (map_option (fuzzyMatch text) acc) word
         = map_option (fuzzyMatch text)
             (if similarity word q \<ge> fuzzyThreshold options
              then (case acc of
                      None \<Rightarrow> Some (fuzzyScore text w (similarity word q))
                    | Some a \<Rightarrow> if fuzzyScore text w (similarity word q) > a
                               then Some (fuzzyScore text w (similarity word q)) else Some a)
              else acc)"
  by (cases acc)
     (simp_all add: fuzzyCandidate_def assms similarity_def fuzzyScore_def fuzzyMatch_def Let_def)

lemma fuzzy_fold_score:
  assumes "\<And>word. lev word q = ed word q"
  shows "foldl (\<lambda>b word. if length word \<ge> 3
                         then fuzzyCandidate lev text q w options b word else b)
           (map_option (fuzzyMatch text) acc) ws
         = map_option (fuzzyMatch text)
             (bestScore acc (map (\<lambda>word. fuzzyScore text w (similarity word q))
                               (filter (qualifies options q) ws)))"
proof (induction ws arbitrary: acc)
  case Nil
  show ?case by simp
next
  case (Cons word ws)
  show ?case
  proof (cases "qualifies options q word")
    case True
    then show ?thesis
      using Cons.IH [of "case acc of
                      None \<Rightarrow> Some (fuzzyScore text w (similarity word q))
                    | Some a \<Rightarrow> if fuzzyScore text w (similarity word q) > a
                               then Some (fuzzyScore text w (similarity word q)) else Some a"]
      by (simp add: fuzzyCandidate_score assms qualifies_def)
  next
    case False
    then show ?thesis
      using Cons.IH [of acc]
      by (auto simp: fuzzyCandidate_score assms qualifies_def)
  qed
qed

lemma qualifies_filter:
  "filter (qualifies options q) (filter (\<lambda>w. w \<noteq> []) ws) = filter (qualifies options q) ws"
  by (induction ws) (auto simp: qualifies_def)

lemma qualifies_splitWhitespace:
  "filter (qualifies options q) (splitWhitespace s) = filter (qualifies options q) (words_of s)"
  using qualifies_filter [of options q "splitWhitespace s"]
  by (simp add: splitWhitespace_words)

lemma qualifies_pieces:
  "filter (qualifies options q) (pieces s) = filter (qualifies options q) (words_of s)"
  using qualifies_filter [of options q "pieces s"]
  by (simp add: words_of_def)

lemma fuzzy_words_tier:
  "foldl (\<lambda>bestMatch word.
            if length word \<ge> 3
            then fuzzyCandidate levenshteinDistance_v1 text q w options bestMatch word
            else bestMatch)
         None (splitWhitespace t)
   = fuzzyTier text t q w options"
  using fuzzy_fold_score [of levenshteinDistance_v1 q "text" w options None "splitWhitespace t"]
  by (simp add: levenshteinDistance_v1_ed qualifies_splitWhitespace fuzzyTier_def)

lemma fuzzy_scan_tier:
  "fst (foldl (fuzzyScan text t q w options) (None, 0) [0..<length t + 1])
   = fuzzyTier text t q w options"
  unfolding fuzzy_scan_pieces
  using fuzzy_fold_score [of levenshteinDistance q "text" w options None "pieces t"]
  by (simp add: levenshteinDistance_ed qualifies_pieces fuzzyTier_def)

lemma calculateFieldScore_v1_tiers:
  "text \<noteq> [] \<Longrightarrow> query \<noteq> [] \<Longrightarrow>
   calculateFieldScore_v1 text query w options =
     (let t = normalized options text; q = normalized options query
      in if startsWith t q then Some (exactStartMatch text w)
         else if indexOf t q \<noteq> -1 then Some (exactContainMatch text w (indexOf t q))
         else if length q \<ge> minFuzzyLength options then fuzzyTier text t q w options
         else None)"
  by (simp add: calculateFieldScore_v1_unfold fuzzy_words_tier Let_def)

lemma calculateFieldScore_tiers:
  "string_cache_ok cache \<Longrightarrow> text \<noteq> [] \<Longrightarrow> query \<noteq> [] \<Longrightarrow>
   fst (calculateFieldScore cache text query w options) =
     (let t = normalized options text; q = normalized options query
      in if startsWith t q then Some (exactStartMatch text w)
         else if indexOf t q \<noteq> -1 then Some (exactContainMatch text w (indexOf t q))
         else if length q \<ge> minFuzzyLength options then fuzzyTier text t q w options
         else None)"
  by (simp add: calculateFieldScore_unfold fuzzy_scan_tier [unfolded Suc_eq_plus1 [symmetric]]
        Let_def del: upt_Suc)

lemma calculateFieldScore_refines:
  "string_cache_ok cache \<Longrightarrow>
   fst (calculateFieldScore cache text query w options) = calculateFieldScore_v1 text query w options"
proof (cases "text = [] \<or> query = []")
  case True
  then show ?thesis
    using calculateFieldScore_empty(1) [of "text" query w options]
      calculateFieldScore_empty(2) [of "text" query cache w options] by simp
next
  case False
  assume "string_cache_ok cache"
  with False show ?thesis
    by (simp add: calculateFieldScore_tiers calculateFieldScore_v1_tiers)
qed

lemma fuzzyTier_Some:
  assumes "fuzzyTier text t q w options = Some m"
  shows "m_type m = Fuzzy
       \<and> (\<exists>word\<in>set (words_of t). qualifies options q word
             \<and> m_score m = fuzzyScore text w (similarity word q))
       \<and> (\<forall>word\<in>set (words_of t). qualifies options q word \<longrightarrow>
             fuzzyScore text w (similarity word q) \<le> m_score m)"
proof -
  let ?cs = "map (\<lambda>word. fuzzyScore text w (similarity word q))
                 (filter (qualifies options q) (words_of t))"
  from assms obtain s where s: "bestScore None ?cs = Some s" and m: "m = fuzzyMatch text s"
    by (auto simp: fuzzyTier_def)
  from bestScore_Some [OF s] have "s \<in> set ?cs" and "\<forall>c\<in>set ?cs. c \<le> s" by auto
  then show ?thesis unfolding m by (auto simp: fuzzyMatch_def)
qed

lemma fuzzyTier_None:
  "fuzzyTier text t q w options = None \<longleftrightarrow>
   (\<forall>word\<in>set (words_of t). \<not> qualifies options q word)"
  by (auto simp: fuzzyTier_def bestScore_None filter_empty_conv)

text \<open>
  C6. A match of kind fuzzy is returned only when the normalised query has at least
  \<open>minFuzzyLength\<close> characters and some whitespace-delimited word of the normalised text
  qualifies (length at least 3, similarity at least \<open>fuzzyThreshold\<close>); its score is
  \<open>weight \<times> similarity \<times> (2 + max 1 (50 / length text))\<close> for a qualifying word, and no
  qualifying word scores higher; every similarity lies between 0 and 1; and no fuzzy
  match is returned when no word qualifies.  Both revisions, the optimised one under the
  string-cache invariant.
\<close>

theorem fuzzy_match:
  assumes "r = calculateFieldScore_v1 text query w options
           \<or> (string_cache_ok cache \<and> r = fst (calculateFieldScore cache text query w options))"
  shows "(\<forall>m. r = Some m \<and> m_type m = Fuzzy \<longrightarrow>
            minFuzzyLength options \<le> length (normalized options query)
          \<and> (\<exists>word\<in>set (words_of (normalized options text)).
                 qualifies options (normalized options query) word
               \<and> m_score m = fuzzyScore text w (similarity word (normalized options query)))
          \<and> (\<forall>word\<in>set (words_of (normalized options text)).
                 qualifies options (normalized options query) word \<longrightarrow>
                 fuzzyScore text w (similarity word (normalized options query)) \<le> m_score m))
       \<and> (\<forall>word. length word \<ge> 3 \<longrightarrow>
                 0 \<le> similarity word (normalized options query)
               \<and> similarity word (normalized options query) \<le> 1)
       \<and> ((\<forall>word\<in>set (words_of (normalized options text)).
               \<not> qualifies options (normalized options query) word) \<longrightarrow>
            (\<forall>m. r = Some m \<longrightarrow> m_type m \<noteq> Fuzzy))"
proof -
  let ?t = "normalized options text" and ?q = "normalized options query"
  from assms have r: "r = calculateFieldScore_v1 text query w options"
    by (auto simp: calculateFieldScore_refines)
  have fuzzy: "minFuzzyLength options \<le> length ?q \<and> fuzzyTier text ?t ?q w options = Some m"
    if "r = Some m" "m_type m = Fuzzy" for m
  proof -
    from that r have ne: "text \<noteq> []" "query \<noteq> []"
      using calculateFieldScore_empty(1) [of "text" query w options] by auto
    from that show ?thesis
      unfolding r calculateFieldScore_v1_tiers [OF ne] Let_def
      by (auto simp: exactStartMatch_def exactContainMatch_def Let_def split: if_splits)
  qed
  show ?thesis
  proof (intro conjI allI impI)
    fix m assume "r = Some m \<and> m_type m = Fuzzy"
    with fuzzy [of m] have len: "minFuzzyLength options \<le> length ?q"
      and tier: "fuzzyTier text ?t ?q w options = Some m" by auto
    from len show "minFuzzyLength options \<le> length ?q" .
    from fuzzyTier_Some [OF tier]
    show "\<exists>word\<in>set (words_of ?t). qualifies options ?q word
               \<and> m_score m = fuzzyScore text w (similarity word ?q)"
      and "\<forall>word\<in>set (words_of ?t). qualifies options ?q word \<longrightarrow>
                 fuzzyScore text w (similarity word ?q) \<le> m_score m"
      by auto
  next
    fix word :: string
    assume "length word \<ge> 3"
    show "0 \<le> similarity word ?q" "similarity word ?q \<le> 1"
      using similarity_bounds [of word ?q] by auto
  next
    fix m
    assume none: "\<forall>word\<in>set (words_of ?t). \<not> qualifies options ?q word" and m: "r = Some m"
    show "m_type m \<noteq> Fuzzy"
    proof
      assume "m_type m = Fuzzy"
      with fuzzy [OF m] have "fuzzyTier text ?t ?q w options = Some m" by simp
      moreover from none have "fuzzyTier text ?t ?q w options = None"
        by (simp only: fuzzyTier_None)
      ultimately show False by simp
    qed
  qed
qed

theorem fuzzy_match_witness:
  "calculateFieldScore_v1 ''this has multiple words for testing'' ''multipel'' 2
       \<lparr>fuzzyThreshold = 6 / 10, minFuzzyLength = 3, caseSensitive = False\<rparr>
     = Some \<lparr>m_field = [], m_value = ''this has multiple words for testing'', m_score = 36 / 7,
             m_type = Fuzzy, m_position = None\<rparr>
   \<and> string_cache_ok []
   \<and> fst (calculateFieldScore [] ''this has multiple words for testing'' ''multipel'' 2
       \<lparr>fuzzyThreshold = 6 / 10, minFuzzyLength = 3, caseSensitive = False\<rparr>)
     = Some \<lparr>m_field = [], m_value = ''this has multiple words for testing'', m_score = 36 / 7,
             m_type = Fuzzy, m_position = None\<rparr>
   \<and> (\<exists>word\<in>set (words_of ''this has multiple words for testing'').
         qualifies \<lparr>fuzzyThreshold = 6 / 10, minFuzzyLength = 3, caseSensitive = False\<rparr>
           ''multipel'' word
       \<and> (36 / 7 :: rat) = fuzzyScore ''this has multiple words for testing'' 2
                              (similarity word ''multipel''))
   \<and> length ''multiple'' \<ge> 3
   \<and> 0 \<le> similarity ''multiple'' ''multipel'' \<and> similarity ''multiple'' ''multipel'' \<le> 1"
proof -
  let ?o = "\<lparr>fuzzyThreshold = 6 / 10, minFuzzyLength = 3, caseSensitive = False\<rparr>"
  let ?t = "''this has multiple words for testing''"
  let ?m = "\<lparr>m_field = [], m_value = ?t, m_score = 36 / 7, m_type = Fuzzy, m_position = None\<rparr>"
  have e1: "calculateFieldScore_v1 ?t ''multipel'' 2 ?o = Some ?m" by code_simp
  have e2: "fst (calculateFieldScore [] ?t ''multipel'' 2 ?o) = Some ?m" by code_simp
  have c: "string_cache_ok []" by (simp add: string_cache_ok_def)
  have n1: "normalized ?o ?t = ?t" by code_simp
  have n2: "normalized ?o ''multipel'' = ''multipel''" by code_simp
  have h1: "Some ?m = calculateFieldScore_v1 ?t ''multipel'' 2 ?o
           \<or> (string_cache_ok [] \<and> Some ?m = fst (calculateFieldScore [] ?t ''multipel'' 2 ?o))"
    using e1 by simp
  have h2: "Some ?m = calculateFieldScore_v1 ?t ''multipel'' 2 ?o
           \<or> (string_cache_ok [] \<and> Some ?m = fst (calculateFieldScore [] ?t ''multipel'' 2 ?o))"
    using e2 c by simp
  have "\<exists>word\<in>set (words_of (normalized ?o ?t)).
                 qualifies ?o (normalized ?o ''multipel'') word
               \<and> m_score ?m = fuzzyScore ?t 2 (similarity word (normalized ?o ''multipel''))"
    using fuzzy_match [OF h1, THEN conjunct1, rule_format, of ?m] by simp
  moreover
  have "\<exists>word\<in>set (words_of (normalized ?o ?t)).
                 qualifies ?o (normalized ?o ''multipel'') word
               \<and> m_score ?m = fuzzyScore ?t 2 (similarity word (normalized ?o ''multipel''))"
    using fuzzy_match [OF h2, THEN conjunct1, rule_format, of ?m] by simp
  moreover
  have "0 \<le> similarity ''multiple'' (normalized ?o ''multipel'')
        \<and> similarity ''multiple'' (normalized ?o ''multipel'') \<le> 1"
    using fuzzy_match [OF h1, THEN conjunct2, THEN conjunct1, rule_format, of "''multiple''"]
    by simp
  ultimately show ?thesis using e1 e2 c unfolding n1 n2 by simp
qed

subsection \<open>The string cache in every reachable state\<close>

text \<open>
  The properties of the optimised scorer above assume \<open>string_cache_ok\<close>.  It holds of
  the empty caches and after \<open>clearSearchCaches\<close>, and every \<open>search\<close> keeps it, also one
  that ends in a \<^verbatim>\<open>TypeError\<close>.
\<close>

lemma scoreFields_cache_ok:
  "string_cache_ok cache \<Longrightarrow> string_cache_ok (snd (scoreFields q fw fs so it cache acc searchFields))"
proof (induction searchFields arbitrary: cache acc)
  case Nil
  then show ?case by simp
next
  case (Cons field rest)
  show ?case
  proof (cases "getNestedValue it field")
    case (Str v)
    let ?r = "calculateFieldScore cache v q (defaultWeight fw fs field) so"
    have ok: "string_cache_ok (snd ?r)"
      using Cons.prems by (rule calculateFieldScore_ok)
    show ?thesis
      using Cons.prems Cons.IH [OF ok] Cons.IH [OF Cons.prems]
      by (simp add: Str Let_def split: option.splits)
  qed (use Cons in simp_all)
qed

lemma scanItems_cache_ok:
  "string_cache_ok cache \<Longrightarrow>
   string_cache_ok (snd (scanItems q fw fs so searchFields maxResults cache results items))"
proof (induction items arbitrary: cache results)
  case Nil
  then show ?case by simp
next
  case (Cons it rest)
  let ?r = "scoreFields q fw fs so it cache ([], 0) searchFields"
  have ok: "string_cache_ok (snd ?r)"
    using Cons.prems by (rule scoreFields_cache_ok)
  show ?case
    using Cons.prems Cons.IH [OF ok] Cons.IH [OF Cons.prems] ok
    by (simp add: Let_def split: sum.splits)
qed

lemma periodicCleanup_cache_ok:
  "string_cache_ok (stringProcessingCache st) \<Longrightarrow>
   string_cache_ok (stringProcessingCache (periodicCleanup st))"
  by (simp add: periodicCleanup_def Let_def string_cache_ok_delete)

lemma search_cache_ok:
  assumes "string_cache_ok (stringProcessingCache st)"
  shows "string_cache_ok (stringProcessingCache (snd (search st data query options)))"
proof -
  have "string_cache_ok (stringProcessingCache (periodicCleanup st))"
    using assms by (rule periodicCleanup_cache_ok)
  then show ?thesis
    by (simp add: search_def Let_def scanItems_cache_ok)
qed

lemma initial_cache_ok:
  "string_cache_ok (stringProcessingCache emptyCaches)"
  "string_cache_ok (stringProcessingCache (clearSearchCaches st))"
  by (simp_all add: emptyCaches_def clearSearchCaches_def string_cache_ok_def)

end
